theory Spec2Isabelle
  imports Complex_Main
begin

section \<open>Values read from the JSON document\<close>

text \<open>
  \<open>json.load\<close> yields \<open>None\<close>, \<open>bool\<close>, \<open>int\<close>, \<open>float\<close>, \<open>str\<close>, \<open>list\<close> and
  \<open>dict\<close> values. A Python \<open>float\<close> is a binary64 number: a finite value (kept here as
  the rational it denotes), an infinity or a NaN (the decoder accepts the literals
  \<open>Infinity\<close>, \<open>-Infinity\<close> and \<open>NaN\<close>). A \<open>dict\<close> is an association list in insertion
  order, as Python dictionaries keep it.
\<close>

datatype pyfloat = Finite rat | PosInf | NegInf | NaN

datatype json =
    JNull
  | JBool bool
  | JInt int
  | JFloat pyfloat
  | JStr string
  | JArr "json list"
  | JObj "(string \<times> json) list"

type_synonym pydict = "(string \<times> json) list"

datatype error = AttributeError | TypeError | ValueError | OverflowError

subsection \<open>Dictionary operations used by the script\<close>

text \<open>\<open>d.get(k, dflt)\<close>; \<open>d.get(k)\<close> is \<open>d.get(k, None)\<close>.\<close>

definition dict_get :: "pydict \<Rightarrow> string \<Rightarrow> json \<Rightarrow> json" where
  "dict_get d k dflt = (case map_of d k of None \<Rightarrow> dflt | Some v \<Rightarrow> v)"

text \<open>\<open>d[k] = v\<close>: an existing key keeps its position, a new key goes to the end.\<close>

fun dict_set :: "pydict \<Rightarrow> string \<Rightarrow> json \<Rightarrow> pydict" where
  "dict_set [] k v = [(k, v)]"
| "dict_set ((k', v') # d) k v = (if k' = k then (k, v) # d else (k', v') # dict_set d k v)"

text \<open>\<open>d.pop(k, None)\<close>, with the returned value thrown away as the script does.\<close>

definition dict_pop :: "pydict \<Rightarrow> string \<Rightarrow> pydict" where
  "dict_pop d k = filter (\<lambda>kv. fst kv \<noteq> k) d"

section \<open>Strings\<close>

definition digit_char :: "nat \<Rightarrow> char" where
  "digit_char d = ''0123456789'' ! d"

function show_nat :: "nat \<Rightarrow> string" where
  "show_nat n = (if n < 10 then [digit_char n] else show_nat (n div 10) @ [digit_char (n mod 10)])"
  by pat_completeness auto
termination
  by (relation "measure (\<lambda>n. n)") auto

declare show_nat.simps [simp del]

text \<open>The conversion \<open>%0wd\<close> of a number that is not negative.\<close>

definition zero_pad :: "nat \<Rightarrow> int \<Rightarrow> string" where
  "zero_pad w i = (let s = show_nat (nat i) in replicate (w - length s) (CHR ''0'') @ s)"

text \<open>
  \<open>s.replace(old, new)\<close>: every occurrence of \<open>old\<close>, found from the left and without
  overlap, becomes \<open>new\<close>. The first argument of \<open>replace_from\<close> counts the characters of
  the occurrence just replaced that are still to be skipped.
\<close>

fun replace_from :: "nat \<Rightarrow> string \<Rightarrow> string \<Rightarrow> string \<Rightarrow> string" where
  "replace_from k [] old new = []"
| "replace_from (Suc k) (c # cs) old new = replace_from k cs old new"
| "replace_from 0 (c # cs) old new =
     (if take (length old) (c # cs) = old
      then new @ replace_from (length old - 1) cs old new
      else c # replace_from 0 cs old new)"

definition str_replace :: "string \<Rightarrow> string \<Rightarrow> string \<Rightarrow> string" where
  "str_replace s old new =
     (if old = [] then concat (map (\<lambda>c. new @ [c]) s) @ new else replace_from 0 s old new)"

section \<open>The library calls of \<open>numeric_ts_to_iso\<close>\<close>

subsection \<open>From a timestamp to seconds and microseconds\<close>

text \<open>
  \<open>datetime.fromtimestamp\<close> first splits its argument into whole seconds and
  microseconds. An \<open>int\<close> (and a \<open>bool\<close>, which is an \<open>int\<close>) is taken as it is. A
  \<open>float\<close> is split by \<open>modf\<close> into an integral part, rounded towards zero, and a
  fraction of the same sign; the fraction times \<open>10\<^sup>6\<close> is rounded to the nearest integer,
  ties to even, and a result of \<open>10\<^sup>6\<close> or below zero is carried into the seconds. A NaN
  raises \<open>ValueError\<close>, an infinity \<open>OverflowError\<close>, anything that is not a number
  \<open>TypeError\<close>. The product is taken exactly here; the library takes it in binary64.
\<close>

definition py_trunc :: "rat \<Rightarrow> int" where
  "py_trunc x = (if 0 \<le> x then \<lfloor>x\<rfloor> else \<lceil>x\<rceil>)"

definition round_half_even :: "rat \<Rightarrow> int" where
  "round_half_even r =
     (let f = \<lfloor>r\<rfloor>; d = r - of_int f
      in if d < 1 / 2 then f else if 1 / 2 < d then f + 1 else if even f then f else f + 1)"

definition timestamp_to_timeval :: "json \<Rightarrow> error + (int \<times> int)" where
  "timestamp_to_timeval ts =
     (case ts of
        JInt n \<Rightarrow> Inr (n, 0)
      | JBool b \<Rightarrow> Inr (if b then 1 else 0, 0)
      | JFloat NaN \<Rightarrow> Inl ValueError
      | JFloat PosInf \<Rightarrow> Inl OverflowError
      | JFloat NegInf \<Rightarrow> Inl OverflowError
      | JFloat (Finite x) \<Rightarrow>
          (let intpart = py_trunc x;
               floatpart = round_half_even ((x - of_int intpart) * 1000000)
           in if 1000000 \<le> floatpart then Inr (intpart + 1, floatpart - 1000000)
              else if floatpart < 0 then Inr (intpart - 1, floatpart + 1000000)
              else Inr (intpart, floatpart))
      | _ \<Rightarrow> Inl TypeError)"

subsection \<open>The proleptic Gregorian calendar\<close>

text \<open>
  The calendar arithmetic is that of Python's own \<open>datetime\<close> module: day 1 is
  0001-01-01, and \<open>_ord2ymd\<close> and \<open>_ymd2ord\<close> go between a day number and year, month
  and day.
\<close>

definition DAYS_IN_MONTH :: "int list" where
  "DAYS_IN_MONTH = [-1, 31, 28, 31, 30, 31, 30, 31, 31, 30, 31, 30, 31]"

definition DAYS_BEFORE_MONTH :: "int list" where
  "DAYS_BEFORE_MONTH = [-1, 0, 31, 59, 90, 120, 151, 181, 212, 243, 273, 304, 334]"

definition is_leap :: "int \<Rightarrow> bool" where
  "is_leap year = (year mod 4 = 0 \<and> (year mod 100 \<noteq> 0 \<or> year mod 400 = 0))"

definition days_before_year :: "int \<Rightarrow> int" where
  "days_before_year year =
     (let y = year - 1 in y * 365 + y div 4 - y div 100 + y div 400)"

definition days_in_month :: "int \<Rightarrow> int \<Rightarrow> int" where
  "days_in_month year month =
     (if month = 2 \<and> is_leap year then 29 else DAYS_IN_MONTH ! nat month)"

definition days_before_month :: "int \<Rightarrow> int \<Rightarrow> int" where
  "days_before_month year month =
     DAYS_BEFORE_MONTH ! nat month + (if 2 < month \<and> is_leap year then 1 else 0)"

definition ymd2ord :: "int \<Rightarrow> int \<Rightarrow> int \<Rightarrow> int" where
  "ymd2ord year month day = days_before_year year + days_before_month year month + day"

definition ord2ymd :: "int \<Rightarrow> int \<times> int \<times> int" where
  "ord2ymd n0 =
     (let n = n0 - 1;
          n400 = n div 146097; n = n mod 146097;
          year = n400 * 400 + 1;
          n100 = n div 36524; n = n mod 36524;
          n4 = n div 1461; n = n mod 1461;
          n1 = n div 365; n = n mod 365;
          year = year + n100 * 100 + n4 * 4 + n1
      in if n1 = 4 \<or> n100 = 4 then (year - 1, 12, 31)
         else
          (let leapyear = (n1 = 3 \<and> (n4 \<noteq> 24 \<or> n100 = 3));
               month = (n + 50) div 32;
               preceding = DAYS_BEFORE_MONTH ! nat month + (if 2 < month \<and> leapyear then 1 else 0)
           in if n < preceding
              then (let month = month - 1;
                        preceding = preceding
                          - (DAYS_IN_MONTH ! nat month + (if month = 2 \<and> leapyear then 1 else 0))
                    in (year, month, n - preceding + 1))
              else (year, month, n - preceding + 1)))"

subsection \<open>\<open>datetime.fromtimestamp(ts, tz=timezone.utc)\<close>\<close>

record datetime =
  year :: int
  month :: int
  day :: int
  hour :: int
  minute :: int
  second :: int
  microsecond :: int

text \<open>
  With \<open>tz=timezone.utc\<close> the seconds are broken down by \<open>gmtime\<close>, with no offset: the
  day number counts from 1970-01-01, which is day 719163 of the calendar. A year outside
  \<open>MINYEAR = 1\<close> and \<open>MAXYEAR = 9999\<close> raises; the model raises \<open>ValueError\<close> there for
  every magnitude, where the library raises \<open>OverflowError\<close> or \<open>OSError\<close> once the value
  leaves the range of the platform's \<open>time_t\<close>. The platform is taken to be POSIX, whose
  \<open>gmtime\<close> accepts negative values and inserts no leap seconds.
\<close>

definition gmtime :: "int \<Rightarrow> int \<times> int \<times> int \<times> int \<times> int \<times> int" where
  "gmtime t =
     (let days = t div 86400; rem = t mod 86400;
          (y, m, d) = ord2ymd (days + 719163)
      in (y, m, d, rem div 3600, rem mod 3600 div 60, rem mod 60))"

definition fromtimestamp_utc :: "json \<Rightarrow> error + datetime" where
  "fromtimestamp_utc ts =
     (case timestamp_to_timeval ts of
        Inl e \<Rightarrow> Inl e
      | Inr (secs, us) \<Rightarrow>
          (case gmtime secs of (y, m, d, hh, mm, ss) \<Rightarrow>
             if y < 1 \<or> 9999 < y then Inl ValueError
             else Inr \<lparr>year = y, month = m, day = d, hour = hh, minute = mm, second = ss,
                       microsecond = us\<rparr>))"

text \<open>\<open>isoformat()\<close> of a datetime whose zone is UTC.\<close>

definition isoformat :: "datetime \<Rightarrow> string" where
  "isoformat dt =
     zero_pad 4 (year dt) @ ''-'' @ zero_pad 2 (month dt) @ ''-'' @ zero_pad 2 (day dt) @ ''T''
     @ zero_pad 2 (hour dt) @ '':'' @ zero_pad 2 (minute dt) @ '':'' @ zero_pad 2 (second dt)
     @ (if microsecond dt \<noteq> 0 then ''.'' @ zero_pad 6 (microsecond dt) else [])
     @ ''+00:00''"

section \<open>The script\<close>

text \<open>
  \<open>numeric_ts_to_iso(ts)\<close> is
  \<open>datetime.fromtimestamp(ts, tz=timezone.utc).replace(microsecond=0).isoformat().replace("+00:00", "Z")\<close>.
\<close>

definition numeric_ts_to_iso :: "json \<Rightarrow> error + string" where
  "numeric_ts_to_iso ts =
     (case fromtimestamp_utc ts of
        Inl e \<Rightarrow> Inl e
      | Inr dt \<Rightarrow> Inr (str_replace (isoformat (dt\<lparr>microsecond := 0\<rparr>)) ''+00:00'' ''Z''))"

text \<open>\<open>isinstance(ts, (int, float))\<close>; a \<open>bool\<close> is an \<open>int\<close> in Python.\<close>

definition is_numeric :: "json \<Rightarrow> bool" where
  "is_numeric v = (case v of JInt _ \<Rightarrow> True | JFloat _ \<Rightarrow> True | JBool _ \<Rightarrow> True | _ \<Rightarrow> False)"

text \<open>\<open>ts in (None, "", "null")\<close>.\<close>

definition is_sentinel :: "json \<Rightarrow> bool" where
  "is_sentinel ts = (ts = JNull \<or> ts = JStr '''' \<or> ts = JStr ''null'')"

text \<open>
  \<open>msg.get("metadata", {}).get("conversation_create_time")\<close>: the second \<open>get\<close> is an
  attribute of a \<open>dict\<close> only, so a \<open>metadata\<close> that is present and not a \<open>dict\<close> raises
  \<open>AttributeError\<close>.
\<close>

definition fallback_ts :: "pydict \<Rightarrow> error + json" where
  "fallback_ts msg =
     (case dict_get msg ''metadata'' (JObj []) of
        JObj md \<Rightarrow> Inr (dict_get md ''conversation_create_time'' JNull)
      | _ \<Rightarrow> Inl AttributeError)"

text \<open>The value of \<open>ts\<close> when the script reaches \<open>isinstance\<close>.\<close>

definition working_ts :: "pydict \<Rightarrow> error + json" where
  "working_ts msg =
     (let ts = dict_get msg ''timestamp'' JNull
      in if is_sentinel ts then fallback_ts msg else Inr ts)"

text \<open>
  The body of the loop for one message: \<open>Inr None\<close> is \<open>continue\<close>, \<open>Inr (Some m)\<close> is
  the message that is appended, \<open>Inl e\<close> is an exception, which ends the run. The script
  changes the dictionary in place and appends that same object; the decoder gives every
  message an object of its own, so the values are all that matters.
\<close>

definition clean_one :: "pydict \<Rightarrow> error + pydict option" where
  "clean_one msg =
     (if dict_get msg ''content'' (JStr '''') = JStr '''' then Inr None
      else
        (case working_ts msg of
           Inl e \<Rightarrow> Inl e
         | Inr ts \<Rightarrow>
             if is_numeric ts then
               (case numeric_ts_to_iso ts of
                  Inl e \<Rightarrow> Inl e
                | Inr ts_iso \<Rightarrow> Inr (Some (dict_set msg ''timestamp'' (JStr ts_iso))))
             else if ts = JNull then Inr (Some (dict_pop msg ''timestamp''))
             else Inr (Some msg)))"

fun clean_loop :: "pydict list \<Rightarrow> pydict list \<Rightarrow> error + pydict list" where
  "clean_loop [] cleaned = Inr cleaned"
| "clean_loop (msg # messages) cleaned =
     (case clean_one msg of
        Inl e \<Rightarrow> Inl e
      | Inr None \<Rightarrow> clean_loop messages cleaned
      | Inr (Some msg') \<Rightarrow> clean_loop messages (cleaned @ [msg']))"

definition clean_messages :: "pydict list \<Rightarrow> error + pydict list" where
  "clean_messages messages = clean_loop messages []"

section \<open>Notions used to state the properties\<close>

text \<open>A message passes the content test of the loop: \<open>msg.get("content", "") != ""\<close>.\<close>

definition survives :: "pydict \<Rightarrow> bool" where
  "survives msg = (dict_get msg ''content'' (JStr '''') \<noteq> JStr '''')"

text \<open>The date and time of a datetime, to the second, as \<open>isoformat\<close> writes them.\<close>

definition iso_seconds :: "datetime \<Rightarrow> string" where
  "iso_seconds dt =
     zero_pad 4 (year dt) @ ''-'' @ zero_pad 2 (month dt) @ ''-'' @ zero_pad 2 (day dt) @ ''T''
     @ zero_pad 2 (hour dt) @ '':'' @ zero_pad 2 (minute dt) @ '':'' @ zero_pad 2 (second dt)"

text \<open>
  The reference decoder of the specification: a text of the form
  \<open>YYYY-MM-DDTHH:MM:SSZ\<close> that names a date and a time of day is read as the number of
  seconds between 1970-01-01T00:00:00 and that instant, both in UTC.
\<close>

definition is_digit :: "char \<Rightarrow> bool" where
  "is_digit c = (c \<in> set ''0123456789'')"

definition digit_value :: "char \<Rightarrow> int" where
  "digit_value c = int (length (takeWhile (\<lambda>d. d \<noteq> c) ''0123456789''))"

definition number_of :: "string \<Rightarrow> int" where
  "number_of cs = foldl (\<lambda>acc c. 10 * acc + digit_value c) 0 cs"

definition matches_iso_format :: "string \<Rightarrow> bool" where
  "matches_iso_format s =
     (length s = 20
      \<and> list_all (\<lambda>i. is_digit (s ! i)) [0, 1, 2, 3, 5, 6, 8, 9, 11, 12, 14, 15, 17, 18]
      \<and> s ! 4 = CHR ''-'' \<and> s ! 7 = CHR ''-'' \<and> s ! 10 = CHR ''T''
      \<and> s ! 13 = CHR '':'' \<and> s ! 16 = CHR '':'' \<and> s ! 19 = CHR ''Z'')"

definition parse_iso_utc :: "string \<Rightarrow> int option" where
  "parse_iso_utc s =
     (if \<not> matches_iso_format s then None
      else
        (let y = number_of (take 4 s);
             mo = number_of (take 2 (drop 5 s));
             d = number_of (take 2 (drop 8 s));
             hh = number_of (take 2 (drop 11 s));
             mi = number_of (take 2 (drop 14 s));
             ss = number_of (take 2 (drop 17 s))
         in if 1 \<le> y \<and> 1 \<le> mo \<and> mo \<le> 12 \<and> 1 \<le> d \<and> d \<le> days_in_month y mo
               \<and> hh < 24 \<and> mi < 60 \<and> ss < 60
            then Some ((ymd2ord y mo d - 719163) * 86400 + hh * 3600 + mi * 60 + ss)
            else None))"

text \<open>
  Timestamps that \<open>datetime\<close> can hold: those from 0001-01-01T00:00:00 to
  9999-12-31T23:59:59, in seconds from the epoch.
\<close>

definition in_datetime_range :: "json \<Rightarrow> bool" where
  "in_datetime_range v =
     (case v of
        JInt n \<Rightarrow> - 62135596800 \<le> n \<and> n \<le> 253402300799
      | JFloat (Finite x) \<Rightarrow> - 62135596800 \<le> x \<and> x \<le> 253402300799
      | JFloat _ \<Rightarrow> False
      | _ \<Rightarrow> True)"

text \<open>
  A record that is kept is well shaped when its \<open>metadata\<close>, if the fallback reads it,
  is missing or a mapping, and the value that becomes the working timestamp is in that
  range if it is a number.
\<close>

definition well_shaped :: "pydict \<Rightarrow> bool" where
  "well_shaped msg =
     (survives msg \<longrightarrow>
        (let ts = dict_get msg ''timestamp'' JNull
         in if is_sentinel ts
            then (case map_of msg ''metadata'' of
                    None \<Rightarrow> True
                  | Some (JObj md) \<Rightarrow> in_datetime_range (dict_get md ''conversation_create_time'' JNull)
                  | Some _ \<Rightarrow> False)
            else in_datetime_range ts))"

section \<open>Dictionaries\<close>

lemma map_of_dict_set: "map_of (dict_set d k v) k' = (if k' = k then Some v else map_of d k')"
  by (induction d) auto

lemma map_of_dict_pop: "map_of (dict_pop d k) k' = (if k' = k then None else map_of d k')"
  unfolding dict_pop_def by (induction d) auto

lemma dict_get_dict_set:
  "dict_get (dict_set d k v) k' dflt = (if k' = k then v else dict_get d k' dflt)"
  unfolding dict_get_def by (simp add: map_of_dict_set)

lemma dict_get_dict_pop:
  "dict_get (dict_pop d k) k' dflt = (if k' = k then dflt else dict_get d k' dflt)"
  unfolding dict_get_def by (simp add: map_of_dict_pop)

lemma others_dict_set:
  "filter (\<lambda>kv. fst kv \<noteq> k) (dict_set d k v) = filter (\<lambda>kv. fst kv \<noteq> k) d"
  by (induction d) auto

lemma others_dict_pop:
  "filter (\<lambda>kv. fst kv \<noteq> k) (dict_pop d k) = filter (\<lambda>kv. fst kv \<noteq> k) d"
  unfolding dict_pop_def by simp

lemma dict_set_idem: "dict_set (dict_set d k v) k v = dict_set d k v"
  by (induction d) auto

lemma dict_pop_idem: "dict_pop (dict_pop d k) k = dict_pop d k"
  unfolding dict_pop_def by simp

section \<open>The loop\<close>

lemma clean_loop_acc:
  "clean_loop ms acc = (case clean_loop ms [] of Inl e \<Rightarrow> Inl e | Inr out \<Rightarrow> Inr (acc @ out))"
proof (induction ms arbitrary: acc)
  case Nil
  show ?case by simp
next
  case (Cons m ms)
  show ?case
  proof (cases "clean_one m")
    case (Inl e)
    then show ?thesis by simp
  next
    case (Inr r)
    show ?thesis
    proof (cases r)
      case None
      with Inr Cons.IH [of acc] show ?thesis by simp
    next
      case (Some m')
      with Inr Cons.IH [of "acc @ [m']"] Cons.IH [of "[m']"] show ?thesis
        by (simp split: sum.splits)
    qed
  qed
qed

lemma clean_messages_Nil: "clean_messages [] = Inr []"
  by (simp add: clean_messages_def)

lemma clean_messages_Cons:
  "clean_messages (m # ms) =
     (case clean_one m of
        Inl e \<Rightarrow> Inl e
      | Inr None \<Rightarrow> clean_messages ms
      | Inr (Some m') \<Rightarrow> (case clean_messages ms of Inl e \<Rightarrow> Inl e | Inr out \<Rightarrow> Inr (m' # out)))"
  unfolding clean_messages_def
  using clean_loop_acc [of ms "[the (projr (clean_one m))]"]
  by (auto split: sum.splits option.splits)

lemma clean_messages_skip:
  "clean_one m = Inr None \<Longrightarrow> clean_messages (xs @ m # ys) = clean_messages (xs @ ys)"
  by (induction xs) (simp_all add: clean_messages_Cons split: sum.splits option.splits)

lemma clean_one_None_iff: "clean_one m = Inr None \<longleftrightarrow> \<not> survives m"
  unfolding clean_one_def survives_def
  by (auto split: sum.splits)

lemma clean_messages_corr:
  "clean_messages ms = Inr out \<Longrightarrow>
     list_all2 (\<lambda>m m'. clean_one m = Inr (Some m')) (filter survives ms) out"
proof (induction ms arbitrary: out)
  case Nil
  then show ?case by (simp add: clean_messages_Nil)
next
  case (Cons m ms)
  show ?case
  proof (cases "clean_one m")
    case (Inl e)
    with Cons.prems show ?thesis by (simp add: clean_messages_Cons)
  next
    case (Inr r)
    show ?thesis
    proof (cases r)
      case None
      with Inr have "\<not> survives m" by (simp add: clean_one_None_iff)
      moreover from None Inr Cons.prems have "clean_messages ms = Inr out"
        by (simp add: clean_messages_Cons)
      ultimately show ?thesis using Cons.IH by simp
    next
      case (Some m')
      with Inr have s: "survives m" using clean_one_None_iff [of m] by auto
      from Some Inr Cons.prems obtain out' where o: "clean_messages ms = Inr out'" "out = m' # out'"
        by (auto simp: clean_messages_Cons split: sum.splits)
      with Cons.IH [of out'] s Some Inr show ?thesis by simp
    qed
  qed
qed

section \<open>The text that \<open>numeric_ts_to_iso\<close> returns\<close>

lemma digit_char_cases: "d < 10 \<Longrightarrow> digit_char d \<in> set ''0123456789''"
  unfolding digit_char_def by (rule nth_mem) simp

lemma digit_char_not_plus: "d < 10 \<Longrightarrow> digit_char d \<noteq> CHR ''+''"
  using digit_char_cases [of d] by auto

lemma show_nat_no_plus: "CHR ''+'' \<notin> set (show_nat n)"
proof (induction n rule: show_nat.induct)
  case (1 n)
  show ?case
  proof (cases "n < 10")
    case True
    then show ?thesis using digit_char_not_plus [of n] by (simp add: show_nat.simps [of n])
  next
    case False
    moreover have "digit_char (n mod 10) \<noteq> CHR ''+''" by (rule digit_char_not_plus) simp
    ultimately show ?thesis using 1 by (simp add: show_nat.simps [of n])
  qed
qed

lemma zero_pad_no_plus: "CHR ''+'' \<notin> set (zero_pad w i)"
  unfolding zero_pad_def Let_def using show_nat_no_plus by auto

lemma replace_from_skip: "length cs = k \<Longrightarrow> replace_from k cs old new = []"
  by (induction k cs old new rule: replace_from.induct) auto

lemma replace_offset_tail:
  "CHR ''+'' \<notin> set p \<Longrightarrow> replace_from 0 (p @ ''+00:00'') ''+00:00'' ''Z'' = p @ ''Z''"
proof (induction p)
  case Nil
  have "replace_from 5 ''00:00'' ''+00:00'' ''Z'' = []" by (rule replace_from_skip) simp
  then show ?case by simp
next
  case (Cons c p)
  then have "c \<noteq> CHR ''+''" by auto
  with Cons show ?case by simp
qed

lemma str_replace_offset:
  "CHR ''+'' \<notin> set p \<Longrightarrow> str_replace (p @ ''+00:00'') ''+00:00'' ''Z'' = p @ ''Z''"
  unfolding str_replace_def by (simp add: replace_offset_tail)

lemma iso_seconds_no_plus: "CHR ''+'' \<notin> set (iso_seconds dt)"
  unfolding iso_seconds_def using zero_pad_no_plus by auto

lemma isoformat_whole: "isoformat (dt\<lparr>microsecond := 0\<rparr>) = iso_seconds dt @ ''+00:00''"
  unfolding isoformat_def iso_seconds_def by simp

lemma numeric_ts_to_iso_eq:
  "numeric_ts_to_iso ts =
     (case fromtimestamp_utc ts of Inl e \<Rightarrow> Inl e | Inr dt \<Rightarrow> Inr (iso_seconds dt @ ''Z''))"
  unfolding numeric_ts_to_iso_def
  by (simp add: isoformat_whole str_replace_offset iso_seconds_no_plus split: sum.splits)

lemma numeric_ts_to_iso_last:
  "numeric_ts_to_iso ts = Inr s \<Longrightarrow> s \<noteq> [] \<and> last s = CHR ''Z''"
  by (auto simp: numeric_ts_to_iso_eq split: sum.splits)

lemma iso_not_sentinel: "numeric_ts_to_iso ts = Inr s \<Longrightarrow> \<not> is_sentinel (JStr s)"
  using numeric_ts_to_iso_last [of ts s] by (auto simp: is_sentinel_def)

section \<open>One message\<close>

lemma clean_one_cases:
  assumes "clean_one m = Inr (Some m')"
  obtains
    (converted) ts s where "working_ts m = Inr ts" "is_numeric ts" "numeric_ts_to_iso ts = Inr s"
      "m' = dict_set m ''timestamp'' (JStr s)"
  | (removed) "working_ts m = Inr JNull" "m' = dict_pop m ''timestamp''"
  | (kept) ts where "working_ts m = Inr ts" "\<not> is_numeric ts" "ts \<noteq> JNull" "m' = m"
  using assms unfolding clean_one_def
  by (auto split: if_splits sum.splits)

lemma clean_one_frame_map:
  "clean_one m = Inr (Some m') \<Longrightarrow> k \<noteq> ''timestamp'' \<Longrightarrow> map_of m' k = map_of m k"
  by (erule clean_one_cases) (simp_all add: map_of_dict_set map_of_dict_pop)

lemma clean_one_frame_list:
  "clean_one m = Inr (Some m') \<Longrightarrow>
     filter (\<lambda>kv. fst kv \<noteq> ''timestamp'') m' = filter (\<lambda>kv. fst kv \<noteq> ''timestamp'') m"
  by (erule clean_one_cases) (simp_all add: others_dict_set others_dict_pop)

lemma survives_frame: "clean_one m = Inr (Some m') \<Longrightarrow> survives m'"
proof -
  assume a: "clean_one m = Inr (Some m')"
  then have "survives m" using clean_one_None_iff [of m] by auto
  moreover from a have "map_of m' ''content'' = map_of m ''content''"
    by (rule clean_one_frame_map) simp
  ultimately show ?thesis by (simp add: survives_def dict_get_def)
qed

lemma fallback_ts_frame:
  "map_of m' ''metadata'' = map_of m ''metadata'' \<Longrightarrow> fallback_ts m' = fallback_ts m"
  unfolding fallback_ts_def dict_get_def by simp

lemma clean_one_converted_fixed:
  assumes "survives m" and "numeric_ts_to_iso ts = Inr s"
  shows "clean_one (dict_set m ''timestamp'' (JStr s)) = Inr (Some (dict_set m ''timestamp'' (JStr s)))"
proof -
  let ?m' = "dict_set m ''timestamp'' (JStr s)"
  have w: "working_ts ?m' = Inr (JStr s)"
    using iso_not_sentinel [OF assms(2)] by (simp add: working_ts_def dict_get_dict_set)
  have c: "dict_get ?m' ''content'' (JStr '''') \<noteq> JStr ''''"
    using assms(1) by (simp add: survives_def dict_get_dict_set)
  show ?thesis
    unfolding clean_one_def using w c by (simp add: is_numeric_def)
qed

lemma clean_one_removed_fixed:
  assumes "survives m" and "working_ts m = Inr JNull"
  shows "clean_one (dict_pop m ''timestamp'') = Inr (Some (dict_pop m ''timestamp''))"
proof -
  let ?m' = "dict_pop m ''timestamp''"
  from assms(2) have "fallback_ts m = Inr JNull"
    unfolding working_ts_def Let_def by (auto simp: is_sentinel_def split: if_splits)
  moreover have "fallback_ts ?m' = fallback_ts m"
    by (rule fallback_ts_frame) (simp add: map_of_dict_pop)
  ultimately have "fallback_ts ?m' = Inr JNull" by simp
  then have w: "working_ts ?m' = Inr JNull"
    by (simp add: working_ts_def dict_get_dict_pop is_sentinel_def)
  have c: "dict_get ?m' ''content'' (JStr '''') \<noteq> JStr ''''"
    using assms(1) by (simp add: survives_def dict_get_dict_pop)
  show ?thesis
    unfolding clean_one_def using w c by (simp add: is_numeric_def dict_pop_idem)
qed

lemma clean_one_fixed:
  assumes "clean_one m = Inr (Some m')"
  shows "clean_one m' = Inr (Some m')"
proof -
  from assms have s: "survives m" using clean_one_None_iff [of m] by auto
  from assms show ?thesis
  proof (cases rule: clean_one_cases)
    case (converted ts s)
    then show ?thesis using clean_one_converted_fixed [OF s, of ts s] by simp
  next
    case removed
    then show ?thesis using clean_one_removed_fixed [OF s] by simp
  next
    case (kept ts)
    with assms show ?thesis by simp
  qed
qed

lemma clean_messages_fixed:
  "list_all2 (\<lambda>m m'. clean_one m = Inr (Some m')) xs out \<Longrightarrow> clean_messages out = Inr out"
proof (induction xs out rule: list_all2_induct)
  case Nil
  show ?case by (simp add: clean_messages_Nil)
next
  case (Cons m xs m' out)
  from clean_one_fixed [OF Cons(1)] Cons(3) show ?case
    by (simp add: clean_messages_Cons)
qed

section \<open>The calendar\<close>

lemma divmod_unique:
  "y = Q * k + r \<Longrightarrow> 0 \<le> r \<Longrightarrow> r < k \<Longrightarrow> y div k = Q \<and> y mod k = (r::int)"
  by simp

lemma days_before_year_split:
  assumes "0 \<le> a" "a \<le> 3" "0 \<le> b" "b \<le> 24" "0 \<le> c" "c \<le> 3"
  shows "days_before_year (q * 400 + a * 100 + b * 4 + c + 1)
         = q * 146097 + a * 36524 + b * 1461 + c * 365"
proof -
  define y where "y = q * 400 + a * 100 + b * 4 + c"
  have e4: "y = (q * 100 + a * 25 + b) * 4 + c" by (simp add: y_def)
  have e100: "y = (q * 4 + a) * 100 + (b * 4 + c)" by (simp add: y_def)
  have e400: "y = q * 400 + (a * 100 + b * 4 + c)" by (simp add: y_def)
  have r100: "0 \<le> b * 4 + c" "b * 4 + c < 100" using assms by auto
  have r400: "0 \<le> a * 100 + b * 4 + c" "a * 100 + b * 4 + c < 400" using assms by auto
  from divmod_unique [OF e4 assms(5)] assms(6) have d4: "y div 4 = q * 100 + a * 25 + b" by simp
  from divmod_unique [OF e100 r100] have d100: "y div 100 = q * 4 + a" by simp
  from divmod_unique [OF e400 r400] have d400: "y div 400 = q" by simp
  have "days_before_year (y + 1) = y * 365 + y div 4 - y div 100 + y div 400"
    by (simp add: days_before_year_def)
  also have "\<dots> = q * 146097 + a * 36524 + b * 1461 + c * 365"
    unfolding d4 d100 d400 by (simp add: y_def)
  finally show ?thesis by (simp add: y_def)
qed

lemma is_leap_split:
  assumes "0 \<le> a" "a \<le> 3" "0 \<le> b" "b \<le> 24" "0 \<le> c" "c \<le> 3"
  shows "is_leap (q * 400 + a * 100 + b * 4 + c + 1) \<longleftrightarrow> (c = 3 \<and> (b \<noteq> 24 \<or> a = 3))"
proof -
  define y where "y = q * 400 + a * 100 + b * 4 + c + 1"
  have goal: "is_leap y \<longleftrightarrow> (c = 3 \<and> (b \<noteq> 24 \<or> a = 3))"
  proof (cases "c = 3")
    case False
    have e: "y = (q * 100 + a * 25 + b) * 4 + (c + 1)" by (simp add: y_def)
    have r: "0 \<le> c + 1" "c + 1 < 4" using assms False by auto
    from divmod_unique [OF e r] have "y mod 4 = c + 1" by simp
    with False assms show ?thesis by (simp add: is_leap_def)
  next
    case c: True
    have e: "y = (q * 100 + a * 25 + b + 1) * 4 + 0" using c by (simp add: y_def)
    from divmod_unique [OF e] have m4: "y mod 4 = 0" by simp
    show ?thesis
    proof (cases "b = 24")
      case False
      have e: "y = (q * 4 + a) * 100 + (b * 4 + 4)" using c by (simp add: y_def)
      have r: "0 \<le> b * 4 + 4" "b * 4 + 4 < 100" using assms False by auto
      from divmod_unique [OF e r] have "y mod 100 = b * 4 + 4" by simp
      with False assms c m4 show ?thesis by (simp add: is_leap_def)
    next
      case b: True
      have e: "y = (q * 4 + a + 1) * 100 + 0" using c b by (simp add: y_def)
      from divmod_unique [OF e] have m100: "y mod 100 = 0" by simp
      show ?thesis
      proof (cases "a = 3")
        case True
        have e: "y = (q + 1) * 400 + 0" using c b True by (simp add: y_def)
        from divmod_unique [OF e] have "y mod 400 = 0" by simp
        with True c b m4 show ?thesis by (simp add: is_leap_def)
      next
        case False
        have e: "y = q * 400 + (a * 100 + 100)" using c b by (simp add: y_def)
        have r: "0 \<le> a * 100 + 100" "a * 100 + 100 < 400" using assms False by auto
        from divmod_unique [OF e r] have "y mod 400 = a * 100 + 100" by simp
        with False assms c b m4 m100 show ?thesis by (simp add: is_leap_def)
      qed
    qed
  qed
  then show ?thesis by (simp add: y_def)
qed

lemma month_day_correct:
  fixes r :: int and L :: bool
  assumes "0 \<le> r" "r < 365"
  defines "m0 \<equiv> (r + 50) div 32"
  defines "p0 \<equiv> DAYS_BEFORE_MONTH ! nat m0 + (if 2 < m0 \<and> L then 1 else 0)"
  defines "m \<equiv> if r < p0 then m0 - 1 else m0"
  defines "p \<equiv> if r < p0
     then p0 - (DAYS_IN_MONTH ! nat (m0 - 1) + (if m0 - 1 = 2 \<and> L then 1 else 0)) else p0"
  shows "1 \<le> m \<and> m \<le> 12
    \<and> p = DAYS_BEFORE_MONTH ! nat m + (if 2 < m \<and> L then 1 else 0)
    \<and> 0 \<le> r - p \<and> r - p < (if m = 2 \<and> L then 29 else DAYS_IN_MONTH ! nat m)"
proof -
  define s where "s = (r + 50) mod 32"
  have e: "r + 50 = m0 * 32 + s" by (simp add: m0_def s_def)
  have s: "0 \<le> s" "s < 32" by (simp_all add: s_def)
  from e s assms(1,2) have "1 \<le> m0" "m0 \<le> 12" by linarith+
  then have "m0 = 1 \<or> m0 = 2 \<or> m0 = 3 \<or> m0 = 4 \<or> m0 = 5 \<or> m0 = 6
    \<or> m0 = 7 \<or> m0 = 8 \<or> m0 = 9 \<or> m0 = 10 \<or> m0 = 11 \<or> m0 = 12"
    by arith
  then consider "m0 = 1" | "m0 = 2" | "m0 = 3" | "m0 = 4" | "m0 = 5" | "m0 = 6"
    | "m0 = 7" | "m0 = 8" | "m0 = 9" | "m0 = 10" | "m0 = 11" | "m0 = 12"
    by blast
  then show ?thesis
  proof cases
    case 1
    with e s assms(1,2) show ?thesis
      by (simp add: m_def p_def p0_def DAYS_BEFORE_MONTH_def DAYS_IN_MONTH_def)
  next
    case 2
    with e s assms(1,2) show ?thesis
      by (simp add: m_def p_def p0_def DAYS_BEFORE_MONTH_def DAYS_IN_MONTH_def)
  next
    case 3
    with e s assms(1,2) show ?thesis
      by (simp add: m_def p_def p0_def DAYS_BEFORE_MONTH_def DAYS_IN_MONTH_def)
  next
    case 4
    with e s assms(1,2) show ?thesis
      by (simp add: m_def p_def p0_def DAYS_BEFORE_MONTH_def DAYS_IN_MONTH_def)
  next
    case 5
    with e s assms(1,2) show ?thesis
      by (simp add: m_def p_def p0_def DAYS_BEFORE_MONTH_def DAYS_IN_MONTH_def)
  next
    case 6
    with e s assms(1,2) show ?thesis
      by (simp add: m_def p_def p0_def DAYS_BEFORE_MONTH_def DAYS_IN_MONTH_def)
  next
    case 7
    with e s assms(1,2) show ?thesis
      by (simp add: m_def p_def p0_def DAYS_BEFORE_MONTH_def DAYS_IN_MONTH_def)
  next
    case 8
    with e s assms(1,2) show ?thesis
      by (simp add: m_def p_def p0_def DAYS_BEFORE_MONTH_def DAYS_IN_MONTH_def)
  next
    case 9
    with e s assms(1,2) show ?thesis
      by (simp add: m_def p_def p0_def DAYS_BEFORE_MONTH_def DAYS_IN_MONTH_def)
  next
    case 10
    with e s assms(1,2) show ?thesis
      by (simp add: m_def p_def p0_def DAYS_BEFORE_MONTH_def DAYS_IN_MONTH_def)
  next
    case 11
    with e s assms(1,2) show ?thesis
      by (simp add: m_def p_def p0_def DAYS_BEFORE_MONTH_def DAYS_IN_MONTH_def)
  next
    case 12
    with e s assms(1,2) show ?thesis
      by (simp add: m_def p_def p0_def DAYS_BEFORE_MONTH_def DAYS_IN_MONTH_def)
  qed
qed

lemma ord2ymd_correct:
  assumes "ord2ymd n0 = (y, m, d)"
  shows "ymd2ord y m d = n0 \<and> 1 \<le> m \<and> m \<le> 12 \<and> 1 \<le> d \<and> d \<le> days_in_month y m"
proof -
  define n where "n = n0 - 1"
  define q where "q = n div 146097"
  define r400 where "r400 = n mod 146097"
  define a where "a = r400 div 36524"
  define r100 where "r100 = r400 mod 36524"
  define b where "b = r100 div 1461"
  define r4 where "r4 = r100 mod 1461"
  define c where "c = r4 div 365"
  define r where "r = r4 mod 365"
  define Y where "Y = q * 400 + a * 100 + b * 4 + c + 1"
  define L where "L = (c = 3 \<and> (b \<noteq> 24 \<or> a = 3))"
  define m0 where "m0 = (r + 50) div 32"
  define p0 where "p0 = DAYS_BEFORE_MONTH ! nat m0 + (if 2 < m0 \<and> L then 1 else 0)"
  define m1 where "m1 = (if r < p0 then m0 - 1 else m0)"
  define p1 where "p1 = (if r < p0
     then p0 - (DAYS_IN_MONTH ! nat (m0 - 1) + (if m0 - 1 = 2 \<and> L then 1 else 0)) else p0)"
  have e400: "n = q * 146097 + r400" and b400: "0 \<le> r400" "r400 < 146097"
    by (simp_all add: q_def r400_def)
  have e100: "r400 = a * 36524 + r100" and b100: "0 \<le> r100" "r100 < 36524"
    by (simp_all add: a_def r100_def)
  have e4: "r100 = b * 1461 + r4" and b4: "0 \<le> r4" "r4 < 1461"
    by (simp_all add: b_def r4_def)
  have e1: "r4 = c * 365 + r" and b1: "0 \<le> r" "r < 365"
    by (simp_all add: c_def r_def)
  from e100 b400 b100 have ba: "0 \<le> a" "a \<le> 4" by linarith+
  from e4 b100 b4 have bb: "0 \<le> b" "b \<le> 24" by linarith+
  from e1 b4 b1 have bc: "0 \<le> c" "c \<le> 4" by linarith+
  have res0: "ord2ymd n0 =
      (if c = 4 \<or> a = 4 then (q * 400 + 1 + a * 100 + b * 4 + c - 1, 12, 31)
       else if r < p0
         then (q * 400 + 1 + a * 100 + b * 4 + c, m0 - 1,
               r - (p0 - (DAYS_IN_MONTH ! nat (m0 - 1) + (if m0 - 1 = 2 \<and> L then 1 else 0))) + 1)
         else (q * 400 + 1 + a * 100 + b * 4 + c, m0, r - p0 + 1))"
    unfolding ord2ymd_def Let_def p0_def m0_def L_def r_def c_def r4_def b_def r100_def a_def
      r400_def q_def n_def
    by (rule refl)
  have Y': "q * 400 + 1 + a * 100 + b * 4 + c = Y" by (simp add: Y_def)
  have res: "ord2ymd n0 =
      (if c = 4 \<or> a = 4 then (Y - 1, 12, 31) else (Y, m1, r - p1 + 1))"
    unfolding res0 Y' m1_def p1_def by simp
  show ?thesis
  proof (cases "a = 4")
    case True
    with e100 b400 b100 have "r100 = 0" by linarith
    with e4 b4 bb have "b = 0" "r4 = 0" by linarith+
    with e1 b1 bc have "c = 0" "r = 0" by linarith+
    have n: "n0 = q * 146097 + 146097"
      using e400 e100 \<open>r100 = 0\<close> True by (simp add: n_def)
    have Y: "Y - 1 = q * 400 + 3 * 100 + 24 * 4 + 3 + 1"
      using True \<open>b = 0\<close> \<open>c = 0\<close> by (simp add: Y_def)
    have dby: "days_before_year (Y - 1) = q * 146097 + 3 * 36524 + 24 * 1461 + 3 * 365"
      unfolding Y by (rule days_before_year_split) simp_all
    have leap: "is_leap (Y - 1)"
      unfolding Y using is_leap_split [of 3 24 3 q] by simp
    from res True assms have "y = Y - 1" "m = 12" "d = 31" by simp_all
    with dby leap n show ?thesis
      by (simp add: ymd2ord_def days_before_month_def days_in_month_def
          DAYS_BEFORE_MONTH_def DAYS_IN_MONTH_def)
  next
    case a: False
    with ba have a3: "a \<le> 3" by simp
    show ?thesis
    proof (cases "c = 4")
      case True
      with e1 b4 b1 have "r = 0" by linarith
      with e1 True have r4: "r4 = 1460" by simp
      with e4 b100 have "b \<noteq> 24" by linarith
      with bb have b23: "b \<le> 23" by simp
      have n: "n0 = q * 146097 + a * 36524 + b * 1461 + 1461"
        using e400 e100 e4 r4 by (simp add: n_def)
      have Y: "Y - 1 = q * 400 + a * 100 + b * 4 + 3 + 1"
        using True by (simp add: Y_def)
      have dby: "days_before_year (Y - 1) = q * 146097 + a * 36524 + b * 1461 + 3 * 365"
        unfolding Y using ba(1) a3 bb by (intro days_before_year_split) simp_all
      have leap: "is_leap (Y - 1)"
        unfolding Y using is_leap_split [of a b 3 q] ba(1) a3 bb \<open>b \<noteq> 24\<close> by simp
      from res True assms have "y = Y - 1" "m = 12" "d = 31" by simp_all
      with dby leap n show ?thesis
        by (simp add: ymd2ord_def days_before_month_def days_in_month_def
            DAYS_BEFORE_MONTH_def DAYS_IN_MONTH_def)
    next
      case False
      with bc have c3: "c \<le> 3" by simp
      have n: "n0 = q * 146097 + a * 36524 + b * 1461 + c * 365 + r + 1"
        using e400 e100 e4 e1 by (simp add: n_def)
      have dby: "days_before_year Y = q * 146097 + a * 36524 + b * 1461 + c * 365"
        unfolding Y_def using ba(1) a3 bb bc(1) c3 by (intro days_before_year_split)
      have leap: "is_leap Y = L"
        unfolding Y_def L_def using ba(1) a3 bb bc(1) c3 by (intro is_leap_split)
      from res False a assms have ymd: "y = Y" "m = m1" "d = r - p1 + 1" by simp_all
      from month_day_correct [OF b1, of L]
      have md: "1 \<le> m1" "m1 \<le> 12"
        "p1 = DAYS_BEFORE_MONTH ! nat m1 + (if 2 < m1 \<and> L then 1 else 0)"
        "0 \<le> r - p1" "r - p1 < (if m1 = 2 \<and> L then 29 else DAYS_IN_MONTH ! nat m1)"
        unfolding m1_def p1_def p0_def m0_def by blast+
      have "ymd2ord y m d = days_before_year Y + p1 + (r - p1 + 1)"
        unfolding ymd2ord_def days_before_month_def ymd leap md(3) [symmetric] by simp
      with dby n have "ymd2ord y m d = n0" by simp
      moreover have "days_in_month y m = (if m1 = 2 \<and> L then 29 else DAYS_IN_MONTH ! nat m1)"
        unfolding days_in_month_def ymd leap by simp
      ultimately show ?thesis using md ymd by simp
    qed
  qed
qed

lemma div_step:
  fixes y k :: int
  assumes "0 < k"
  shows "y div k = (y - 1) div k + (if y mod k = 0 then 1 else 0)"
proof (cases "y mod k = 0")
  case True
  have "y = y div k * k + y mod k" by simp
  with True have e: "y - 1 = (y div k - 1) * k + (k - 1)" by (simp add: algebra_simps)
  from divmod_unique [OF e] assms have "(y - 1) div k = y div k - 1" by simp
  with True show ?thesis by simp
next
  case False
  have "0 \<le> y mod k" "y mod k < k" using assms by simp_all
  with False have r: "0 \<le> y mod k - 1" "y mod k - 1 < k" by simp_all
  have e: "y - 1 = y div k * k + (y mod k - 1)" by simp
  from divmod_unique [OF e r] have "(y - 1) div k = y div k" by simp
  with False show ?thesis by simp
qed


lemma days_before_year_Suc:
  "days_before_year (y + 1) = days_before_year y + 365 + (if is_leap y then 1 else 0)"
proof -
  define D4 where "D4 = (y - 1) div 4"
  define D100 where "D100 = (y - 1) div 100"
  define D400 where "D400 = (y - 1) div 400"
  define P4 where "P4 \<longleftrightarrow> y mod 4 = 0"
  define P100 where "P100 \<longleftrightarrow> y mod 100 = 0"
  define P400 where "P400 \<longleftrightarrow> y mod 400 = 0"
  have d4: "y div 4 = D4 + (if P4 then 1 else 0)"
    unfolding D4_def P4_def by (rule div_step) simp
  have d100: "y div 100 = D100 + (if P100 then 1 else 0)"
    unfolding D100_def P100_def by (rule div_step) simp
  have d400: "y div 400 = D400 + (if P400 then 1 else 0)"
    unfolding D400_def P400_def by (rule div_step) simp
  have m1: "P100" if "P400"
  proof -
    from that have "400 dvd y" by (simp add: P400_def dvd_eq_mod_eq_0)
    then have "100 dvd y" using dvd_trans [of 100 400 y] by simp
    then show ?thesis by (simp add: P100_def dvd_eq_mod_eq_0)
  qed
  have m2: "P4" if "P100"
  proof -
    from that have "100 dvd y" by (simp add: P100_def dvd_eq_mod_eq_0)
    then have "4 dvd y" using dvd_trans [of 4 100 y] by simp
    then show ?thesis by (simp add: P4_def dvd_eq_mod_eq_0)
  qed
  have leap: "is_leap y \<longleftrightarrow> P4 \<and> (\<not> P100 \<or> P400)"
    by (simp add: is_leap_def P4_def P100_def P400_def)
  have l: "days_before_year (y + 1) = y * 365 + y div 4 - y div 100 + y div 400"
    by (simp add: days_before_year_def)
  have r: "days_before_year y = (y - 1) * 365 + D4 - D100 + D400"
    by (simp add: days_before_year_def Let_def D4_def D100_def D400_def)
  show ?thesis
    unfolding l r d4 d100 d400 leap
    using m1 m2 by (cases P4; cases P100; cases P400) (simp_all add: algebra_simps)
qed


lemma days_before_year_mono: "y \<le> z \<Longrightarrow> days_before_year y \<le> days_before_year z"
proof (induction z rule: int_ge_induct)
  case base
  show ?case by simp
next
  case (step i)
  have "days_before_year i \<le> days_before_year (i + 1)"
    unfolding days_before_year_Suc [of i] by (cases "is_leap i") simp_all
  with step show ?case by simp
qed

lemma month_span:
  assumes "1 \<le> m" "m \<le> 12"
  shows "0 \<le> days_before_month y m
    \<and> days_before_month y m + days_in_month y m \<le> 365 + (if is_leap y then 1 else 0)"
proof -
  from assms have "m = 1 \<or> m = 2 \<or> m = 3 \<or> m = 4 \<or> m = 5 \<or> m = 6
    \<or> m = 7 \<or> m = 8 \<or> m = 9 \<or> m = 10 \<or> m = 11 \<or> m = 12"
    by arith
  then show ?thesis
    by (elim disjE)
      (simp_all add: days_before_month_def days_in_month_def DAYS_BEFORE_MONTH_def DAYS_IN_MONTH_def)
qed


lemma ord2ymd_year_range:
  assumes "ord2ymd n = (y, m, d)" and "1 \<le> n" and "n \<le> 3652059"
  shows "1 \<le> y \<and> y \<le> 9999"
proof -
  from ord2ymd_correct [OF assms(1)]
  have c: "ymd2ord y m d = n" "1 \<le> m" "m \<le> 12" "1 \<le> d" "d \<le> days_in_month y m" by simp_all
  from month_span [OF c(2,3), of y]
  have s: "0 \<le> days_before_month y m"
    "days_before_month y m + days_in_month y m \<le> 365 + (if is_leap y then 1 else 0)"
    by simp_all
  have n: "n = days_before_year y + days_before_month y m + d"
    using c(1) by (simp add: ymd2ord_def)
  have lo: "days_before_year y < n" using n s(1) c(4) by linarith
  have hi: "n \<le> days_before_year (y + 1)"
    unfolding days_before_year_Suc [of y] using n s(2) c(5) by linarith
  have z1: "days_before_year 1 = 0" by (simp add: days_before_year_def)
  have z2: "days_before_year 10000 = 3652059" by (simp add: days_before_year_def)
  have "1 \<le> y"
  proof (rule ccontr)
    assume "\<not> 1 \<le> y"
    then have "y + 1 \<le> 1" by simp
    then have "days_before_year (y + 1) \<le> days_before_year 1" by (rule days_before_year_mono)
    with z1 hi assms(2) show False by linarith
  qed
  moreover have "y \<le> 9999"
  proof (rule ccontr)
    assume "\<not> y \<le> 9999"
    then have "10000 \<le> y" by simp
    then have "days_before_year 10000 \<le> days_before_year y" by (rule days_before_year_mono)
    with z2 lo assms(3) show False by linarith
  qed
  ultimately show ?thesis by simp
qed

lemma gmtime_fields:
  assumes "gmtime t = (y, m, d, hh, mm, ss)"
  shows "ord2ymd (t div 86400 + 719163) = (y, m, d)"
    and "0 \<le> hh" "hh < 24" "0 \<le> mm" "mm < 60" "0 \<le> ss" "ss < 60"
    and "t = (t div 86400) * 86400 + hh * 3600 + mm * 60 + ss"
proof -
  define r where "r = t mod 86400"
  define r' where "r' = r mod 3600"
  have r: "0 \<le> r" "r < 86400" by (simp_all add: r_def)
  have r': "0 \<le> r'" "r' < 3600" by (simp_all add: r'_def)
  from assms have f: "ord2ymd (t div 86400 + 719163) = (y, m, d)"
    "hh = r div 3600" "mm = r' div 60" "ss = r mod 60"
    by (auto simp: gmtime_def Let_def r_def r'_def split: prod.splits)
  have e1: "r = hh * 3600 + r'" by (simp add: f r'_def)
  have "r' mod 60 = r mod 60" unfolding r'_def by (simp add: mod_mod_cancel)
  moreover have "r' = r' div 60 * 60 + r' mod 60" by simp
  ultimately have e2: "r' = mm * 60 + ss" unfolding f by simp
  have s: "0 \<le> ss" "ss < 60" by (simp_all add: f)
  from e2 r' s have "0 \<le> mm" "mm < 60" by linarith+
  moreover from e1 r r' have "0 \<le> hh" "hh < 24" by linarith+
  moreover have "t = (t div 86400) * 86400 + r" by (simp add: r_def)
  ultimately show "ord2ymd (t div 86400 + 719163) = (y, m, d)"
    and "0 \<le> hh" "hh < 24" "0 \<le> mm" "mm < 60" "0 \<le> ss" "ss < 60"
    and "t = (t div 86400) * 86400 + hh * 3600 + mm * 60 + ss"
    using f(1) s e1 e2 by simp_all
qed

lemma gmtime_year_range:
  assumes "gmtime t = (y, m, d, hh, mm, ss)" and "- 62135596800 \<le> t" and "t \<le> 253402300799"
  shows "1 \<le> y \<and> y \<le> 9999"
proof -
  define days where "days = t div 86400"
  define r where "r = t mod 86400"
  have r: "0 \<le> r" "r < 86400" by (simp_all add: r_def)
  have e: "t = days * 86400 + r" by (simp add: days_def r_def)
  from e r assms(2,3) have "1 \<le> days + 719163" "days + 719163 \<le> 3652059" by linarith+
  with gmtime_fields(1) [OF assms(1)] show ?thesis
    unfolding days_def by (intro ord2ymd_year_range)
qed

section \<open>Writing and reading the text\<close>

lemma digit_char_value: "d < 10 \<Longrightarrow> is_digit (digit_char d) \<and> digit_value (digit_char d) = int d"
proof -
  assume "d < 10"
  then have "d = 0 \<or> d = 1 \<or> d = 2 \<or> d = 3 \<or> d = 4 \<or> d = 5 \<or> d = 6 \<or> d = 7 \<or> d = 8 \<or> d = 9"
    by arith
  then show ?thesis
    by (elim disjE) (simp_all add: digit_char_def digit_value_def is_digit_def)
qed

lemma show_nat1: "n < 10 \<Longrightarrow> show_nat n = [digit_char n]"
  by (simp add: show_nat.simps [of n])

lemma show_nat2:
  "10 \<le> n \<Longrightarrow> n < 100 \<Longrightarrow> show_nat n = [digit_char (n div 10), digit_char (n mod 10)]"
  by (simp add: show_nat.simps [of n] show_nat1)

lemma show_nat3:
  "100 \<le> n \<Longrightarrow> n < 1000 \<Longrightarrow>
     show_nat n = [digit_char (n div 100), digit_char (n div 10 mod 10), digit_char (n mod 10)]"
  by (simp add: show_nat.simps [of n] show_nat2 div_mult2_eq [symmetric])

lemma show_nat4:
  "1000 \<le> n \<Longrightarrow> n < 10000 \<Longrightarrow>
     show_nat n = [digit_char (n div 1000), digit_char (n div 100 mod 10),
                   digit_char (n div 10 mod 10), digit_char (n mod 10)]"
  by (simp add: show_nat.simps [of n] show_nat3 div_mult2_eq [symmetric])

lemma digit_char_0: "digit_char 0 = CHR ''0''"
  by (simp add: digit_char_def)

lemma replicate_2: "replicate 2 x = [x, x]"
  by (simp add: numeral_2_eq_2)

lemma replicate_3: "replicate 3 x = [x, x, x]"
  by (simp add: numeral_3_eq_3)

lemma zero_pad2:
  assumes "0 \<le> i" "i < 100"
  shows "zero_pad 2 i = [digit_char (nat i div 10), digit_char (nat i mod 10)]"
proof (cases "nat i < 10")
  case True
  then show ?thesis by (simp add: zero_pad_def show_nat1 digit_char_0 replicate_2 replicate_3)
next
  case False
  with assms have "10 \<le> nat i" "nat i < 100" by simp_all
  then show ?thesis by (simp add: zero_pad_def show_nat2)
qed

lemma zero_pad4:
  assumes "0 \<le> i" "i < 10000"
  shows "zero_pad 4 i = [digit_char (nat i div 1000), digit_char (nat i div 100 mod 10),
                         digit_char (nat i div 10 mod 10), digit_char (nat i mod 10)]"
proof -
  define n where "n = nat i"
  from assms have n: "n < 10000" by (simp add: n_def)
  consider "n < 10" | "10 \<le> n" "n < 100" | "100 \<le> n" "n < 1000" | "1000 \<le> n"
    by linarith
  then have "zero_pad 4 (int n) = [digit_char (n div 1000), digit_char (n div 100 mod 10),
                         digit_char (n div 10 mod 10), digit_char (n mod 10)]"
  proof cases
    case 1
    then show ?thesis by (simp add: zero_pad_def show_nat1 digit_char_0 replicate_2 replicate_3)
  next
    case 2
    then show ?thesis by (simp add: zero_pad_def show_nat2 digit_char_0 replicate_2 replicate_3)
  next
    case 3
    then show ?thesis by (simp add: zero_pad_def show_nat3 digit_char_0 replicate_2 replicate_3)
  next
    case 4
    with n show ?thesis by (simp add: zero_pad_def show_nat4)
  qed
  with assms show ?thesis by (simp add: n_def)
qed

lemma number_of2:
  assumes "a < 10" "b < 10"
  shows "number_of [digit_char a, digit_char b] = int (10 * a + b)"
  using digit_char_value [OF assms(1)] digit_char_value [OF assms(2)]
  by (simp add: number_of_def)

lemma number_of4:
  assumes "a < 10" "b < 10" "c < 10" "d < 10"
  shows "number_of [digit_char a, digit_char b, digit_char c, digit_char d]
         = int (1000 * a + 100 * b + 10 * c + d)"
  using digit_char_value [OF assms(1)] digit_char_value [OF assms(2)]
    digit_char_value [OF assms(3)] digit_char_value [OF assms(4)]
  by (simp add: number_of_def)

lemma digits2: "(n::nat) < 100 \<Longrightarrow> 10 * (n div 10) + n mod 10 = n \<and> n div 10 < 10"
  by simp

lemma digits4:
  assumes "(n::nat) < 10000"
  shows "1000 * (n div 1000) + 100 * (n div 100 mod 10) + 10 * (n div 10 mod 10) + n mod 10 = n"
    and "n div 1000 < 10"
proof -
  have a: "n div 100 = 10 * (n div 1000) + n div 100 mod 10"
    using div_mult2_eq [of n 100 10] by simp
  have b: "n div 10 = 10 * (n div 100) + n div 10 mod 10"
    using div_mult2_eq [of n 10 10] by simp
  have c: "n = 10 * (n div 10) + n mod 10" by simp
  from a b c show "1000 * (n div 1000) + 100 * (n div 100 mod 10) + 10 * (n div 10 mod 10) + n mod 10 = n"
    by linarith
  from assms show "n div 1000 < 10" by simp
qed

lemma days_in_month_le: "1 \<le> m \<Longrightarrow> m \<le> 12 \<Longrightarrow> days_in_month y m \<le> 31"
proof -
  assume "1 \<le> m" "m \<le> 12"
  then have "m = 1 \<or> m = 2 \<or> m = 3 \<or> m = 4 \<or> m = 5 \<or> m = 6
    \<or> m = 7 \<or> m = 8 \<or> m = 9 \<or> m = 10 \<or> m = 11 \<or> m = 12"
    by arith
  then show ?thesis
    by (elim disjE) (simp_all add: days_in_month_def DAYS_IN_MONTH_def)
qed

lemma two_digits:
  assumes "0 \<le> i" "i < 100"
  obtains a b where "zero_pad 2 i = [a, b]" "is_digit a" "is_digit b" "number_of [a, b] = i"
proof -
  define n where "n = nat i"
  from assms have n: "n < 100" by (simp add: n_def)
  then have lt: "n div 10 < 10" "n mod 10 < 10" by simp_all
  have "number_of [digit_char (n div 10), digit_char (n mod 10)] = int (10 * (n div 10) + n mod 10)"
    using lt by (rule number_of2)
  also have "\<dots> = i" using assms by (simp add: n_def)
  finally have v: "number_of [digit_char (n div 10), digit_char (n mod 10)] = i" .
  show ?thesis
  proof (rule that)
    show "zero_pad 2 i = [digit_char (n div 10), digit_char (n mod 10)]"
      unfolding n_def using assms by (rule zero_pad2)
    show "is_digit (digit_char (n div 10))" using digit_char_value [OF lt(1)] by simp
    show "is_digit (digit_char (n mod 10))" using digit_char_value [OF lt(2)] by simp
    show "number_of [digit_char (n div 10), digit_char (n mod 10)] = i" by (rule v)
  qed
qed

lemma four_digits:
  assumes "0 \<le> i" "i < 10000"
  obtains a b c d where "zero_pad 4 i = [a, b, c, d]"
    "is_digit a" "is_digit b" "is_digit c" "is_digit d" "number_of [a, b, c, d] = i"
proof -
  define n where "n = nat i"
  from assms have n: "n < 10000" by (simp add: n_def)
  have lt: "n div 1000 < 10" "n div 100 mod 10 < 10" "n div 10 mod 10 < 10" "n mod 10 < 10"
    using n by simp_all
  have "number_of [digit_char (n div 1000), digit_char (n div 100 mod 10),
                   digit_char (n div 10 mod 10), digit_char (n mod 10)]
        = int (1000 * (n div 1000) + 100 * (n div 100 mod 10) + 10 * (n div 10 mod 10) + n mod 10)"
    using lt by (rule number_of4)
  also have "\<dots> = int n" using digits4(1) [OF n] by simp
  also have "\<dots> = i" using assms by (simp add: n_def)
  finally have v: "number_of [digit_char (n div 1000), digit_char (n div 100 mod 10),
                   digit_char (n div 10 mod 10), digit_char (n mod 10)] = i" .
  show ?thesis
  proof (rule that)
    show "zero_pad 4 i = [digit_char (n div 1000), digit_char (n div 100 mod 10),
                   digit_char (n div 10 mod 10), digit_char (n mod 10)]"
      unfolding n_def using assms by (rule zero_pad4)
    show "is_digit (digit_char (n div 1000))" using digit_char_value [OF lt(1)] by simp
    show "is_digit (digit_char (n div 100 mod 10))" using digit_char_value [OF lt(2)] by simp
    show "is_digit (digit_char (n div 10 mod 10))" using digit_char_value [OF lt(3)] by simp
    show "is_digit (digit_char (n mod 10))" using digit_char_value [OF lt(4)] by simp
    show "number_of [digit_char (n div 1000), digit_char (n div 100 mod 10),
                   digit_char (n div 10 mod 10), digit_char (n mod 10)] = i" by (rule v)
  qed
qed

lemma parse_format:
  assumes "1 \<le> y" "y \<le> 9999" "1 \<le> mo" "mo \<le> 12" "1 \<le> d" "d \<le> days_in_month y mo"
    and "0 \<le> hh" "hh < 24" "0 \<le> mi" "mi < 60" "0 \<le> ss" "ss < 60"
  defines "s \<equiv> zero_pad 4 y @ ''-'' @ zero_pad 2 mo @ ''-'' @ zero_pad 2 d @ ''T''
     @ zero_pad 2 hh @ '':'' @ zero_pad 2 mi @ '':'' @ zero_pad 2 ss @ ''Z''"
  shows "matches_iso_format s
    \<and> parse_iso_utc s = Some ((ymd2ord y mo d - 719163) * 86400 + hh * 3600 + mi * 60 + ss)"
proof -
  from days_in_month_le [OF assms(3,4), of y] assms(6) have d100: "d < 100" by simp
  from assms(1,2) obtain y1 y2 y3 y4 where Y: "zero_pad 4 y = [y1, y2, y3, y4]"
    "is_digit y1" "is_digit y2" "is_digit y3" "is_digit y4" "number_of [y1, y2, y3, y4] = y"
    by (auto intro: four_digits [of y])
  from assms(3,4) obtain m1 m2 where M: "zero_pad 2 mo = [m1, m2]"
    "is_digit m1" "is_digit m2" "number_of [m1, m2] = mo"
    by (auto intro: two_digits [of mo])
  from assms(5) d100 obtain d1 d2 where D: "zero_pad 2 d = [d1, d2]"
    "is_digit d1" "is_digit d2" "number_of [d1, d2] = d"
    by (auto intro: two_digits [of d])
  from assms(7,8) obtain h1 h2 where H: "zero_pad 2 hh = [h1, h2]"
    "is_digit h1" "is_digit h2" "number_of [h1, h2] = hh"
    by (auto intro: two_digits [of hh])
  from assms(9,10) obtain i1 i2 where I: "zero_pad 2 mi = [i1, i2]"
    "is_digit i1" "is_digit i2" "number_of [i1, i2] = mi"
    by (auto intro: two_digits [of mi])
  from assms(11,12) obtain s1 s2 where S: "zero_pad 2 ss = [s1, s2]"
    "is_digit s1" "is_digit s2" "number_of [s1, s2] = ss"
    by (auto intro: two_digits [of ss])
  have s: "s = [y1, y2, y3, y4, CHR ''-'', m1, m2, CHR ''-'', d1, d2, CHR ''T'',
                h1, h2, CHR '':'', i1, i2, CHR '':'', s1, s2, CHR ''Z'']"
    unfolding s_def Y(1) M(1) D(1) H(1) I(1) S(1) by simp
  have fmt: "matches_iso_format s"
    unfolding s matches_iso_format_def
    using Y(2-5) M(2,3) D(2,3) H(2,3) I(2,3) S(2,3) by simp
  have parts: "take 4 s = [y1, y2, y3, y4]" "take 2 (drop 5 s) = [m1, m2]"
    "take 2 (drop 8 s) = [d1, d2]" "take 2 (drop 11 s) = [h1, h2]"
    "take 2 (drop 14 s) = [i1, i2]" "take 2 (drop 17 s) = [s1, s2]"
    unfolding s by simp_all
  have "parse_iso_utc s = Some ((ymd2ord y mo d - 719163) * 86400 + hh * 3600 + mi * 60 + ss)"
    unfolding parse_iso_utc_def Let_def parts Y(6) M(4) D(4) H(4) I(4) S(4)
    using fmt assms(1-12) by simp
  with fmt show ?thesis by simp
qed

section \<open>Seconds of a timestamp\<close>

lemma round_half_even_ge: "of_int k \<le> r \<Longrightarrow> k \<le> round_half_even r"
proof -
  assume "of_int k \<le> r"
  then have "k \<le> \<lfloor>r\<rfloor>" by (simp add: le_floor_iff)
  then show ?thesis by (simp add: round_half_even_def Let_def)
qed

lemma round_half_even_le: "r \<le> of_int k \<Longrightarrow> round_half_even r \<le> k"
proof (cases "r = of_int k")
  case True
  then show ?thesis by (simp add: round_half_even_def Let_def)
next
  case False
  assume "r \<le> of_int k"
  with False have "r < of_int k" by simp
  then have "\<lfloor>r\<rfloor> < k" by (simp add: floor_less_iff)
  then show ?thesis by (simp add: round_half_even_def Let_def)
qed

lemma float_timeval:
  obtains secs us where "timestamp_to_timeval (JFloat (Finite x)) = Inr (secs, us)"
    "\<lfloor>x\<rfloor> \<le> secs" "secs \<le> \<lfloor>x\<rfloor> + 1"
    "x - of_int \<lfloor>x\<rfloor> \<le> 999999 / 1000000 \<Longrightarrow> secs = \<lfloor>x\<rfloor>"
proof -
  define f where "f = \<lfloor>x\<rfloor>"
  define t where "t = py_trunc x"
  define fp where "fp = round_half_even ((x - of_int t) * 1000000)"
  have fx: "of_int f \<le> x" "x < of_int f + 1" by (simp_all add: f_def) linarith
  have tv: "timestamp_to_timeval (JFloat (Finite x)) =
      (if 1000000 \<le> fp then Inr (t + 1, fp - 1000000)
       else if fp < 0 then Inr (t - 1, fp + 1000000) else Inr (t, fp))"
    by (simp add: timestamp_to_timeval_def Let_def t_def fp_def)
  consider (pos) "t = f" "0 \<le> x - of_int t" | (neg) "t = f + 1" "x - of_int t < 0"
  proof (cases "0 \<le> x")
    case True
    then have "t = f" by (simp add: t_def py_trunc_def f_def)
    with fx that(1) show ?thesis by simp
  next
    case False
    then have t: "t = \<lceil>x\<rceil>" by (simp add: t_def py_trunc_def)
    show ?thesis
    proof (cases "x = of_int f")
      case True
      then have "t = f" unfolding t by simp
      with True that(1) show ?thesis by simp
    next
      case False
      with fx have "of_int f < x" by simp
      with fx(2) have "\<lceil>x\<rceil> = f + 1" by (simp add: ceiling_unique)
      with t fx(2) that(2) show ?thesis by simp
    qed
  qed
  then show ?thesis
  proof cases
    case pos
    from pos fx have p: "0 \<le> (x - of_int t) * 1000000" "(x - of_int t) * 1000000 \<le> of_int 1000000"
      by simp_all
    have lo: "0 \<le> fp" unfolding fp_def using round_half_even_ge [of 0] p(1) by simp
    have small: "fp < 1000000" if "x - of_int f \<le> 999999 / 1000000"
    proof -
      from that pos have "(x - of_int t) * 1000000 \<le> of_int 999999" by simp
      then have "fp \<le> 999999" unfolding fp_def by (rule round_half_even_le)
      then show ?thesis by simp
    qed
    show ?thesis
    proof (cases "1000000 \<le> fp")
      case True
      show ?thesis
      proof (rule that)
        show "timestamp_to_timeval (JFloat (Finite x)) = Inr (t + 1, fp - 1000000)"
          using tv True by simp
        show "\<lfloor>x\<rfloor> \<le> t + 1" "t + 1 \<le> \<lfloor>x\<rfloor> + 1" using pos by (simp_all add: f_def)
        show "t + 1 = \<lfloor>x\<rfloor>" if "x - of_int \<lfloor>x\<rfloor> \<le> 999999 / 1000000"
          using small that True by (simp add: f_def)
      qed
    next
      case False
      show ?thesis
      proof (rule that)
        show "timestamp_to_timeval (JFloat (Finite x)) = Inr (t, fp)"
          using tv False lo by simp
        show "\<lfloor>x\<rfloor> \<le> t" "t \<le> \<lfloor>x\<rfloor> + 1" using pos by (simp_all add: f_def)
        show "t = \<lfloor>x\<rfloor>" if "x - of_int \<lfloor>x\<rfloor> \<le> 999999 / 1000000"
          using pos by (simp add: f_def)
      qed
    qed
  next
    case neg
    from neg have "(x - of_int t) * 1000000 \<le> of_int 0" by simp
    then have hi: "fp \<le> 0" unfolding fp_def by (rule round_half_even_le)
    have small: "fp < 0" if "x - of_int f \<le> 999999 / 1000000"
    proof -
      from that neg have "(x - of_int t) * 1000000 \<le> of_int (- 1)" by simp
      then have "fp \<le> - 1" unfolding fp_def by (rule round_half_even_le)
      then show ?thesis by simp
    qed
    show ?thesis
    proof (cases "fp < 0")
      case True
      show ?thesis
      proof (rule that)
        show "timestamp_to_timeval (JFloat (Finite x)) = Inr (t - 1, fp + 1000000)"
          using tv True by simp
        show "\<lfloor>x\<rfloor> \<le> t - 1" "t - 1 \<le> \<lfloor>x\<rfloor> + 1" using neg by (simp_all add: f_def)
        show "t - 1 = \<lfloor>x\<rfloor>" if "x - of_int \<lfloor>x\<rfloor> \<le> 999999 / 1000000"
          using neg by (simp add: f_def)
      qed
    next
      case False
      show ?thesis
      proof (rule that)
        show "timestamp_to_timeval (JFloat (Finite x)) = Inr (t, fp)"
          using tv False hi by simp
        show "\<lfloor>x\<rfloor> \<le> t" "t \<le> \<lfloor>x\<rfloor> + 1" using neg by (simp_all add: f_def)
        show "t = \<lfloor>x\<rfloor>" if "x - of_int \<lfloor>x\<rfloor> \<le> 999999 / 1000000"
          using small that False by (simp add: f_def)
      qed
    qed
  qed
qed

lemma float_timeval_ex:
  "\<exists>secs us. timestamp_to_timeval (JFloat (Finite x)) = Inr (secs, us)
     \<and> \<lfloor>x\<rfloor> \<le> secs \<and> secs \<le> \<lfloor>x\<rfloor> + 1
     \<and> (x - of_int \<lfloor>x\<rfloor> \<le> 999999 / 1000000 \<longrightarrow> secs = \<lfloor>x\<rfloor>)"
  by (rule float_timeval [of x]) blast

lemma numeric_ts_to_iso_fields:
  assumes "numeric_ts_to_iso v = Inr s"
  obtains secs us y mo d hh mi ss where
    "timestamp_to_timeval v = Inr (secs, us)"
    "s = zero_pad 4 y @ ''-'' @ zero_pad 2 mo @ ''-'' @ zero_pad 2 d @ ''T''
       @ zero_pad 2 hh @ '':'' @ zero_pad 2 mi @ '':'' @ zero_pad 2 ss @ ''Z''"
    "1 \<le> y" "y \<le> 9999" "1 \<le> mo" "mo \<le> 12" "1 \<le> d" "d \<le> days_in_month y mo"
    "0 \<le> hh" "hh < 24" "0 \<le> mi" "mi < 60" "0 \<le> ss" "ss < 60"
    "(ymd2ord y mo d - 719163) * 86400 + hh * 3600 + mi * 60 + ss = secs"
proof -
  from assms obtain dt where dt: "fromtimestamp_utc v = Inr dt" "s = iso_seconds dt @ ''Z''"
    by (auto simp: numeric_ts_to_iso_eq split: sum.splits)
  from dt(1) obtain secs us where tv: "timestamp_to_timeval v = Inr (secs, us)"
    by (auto simp: fromtimestamp_utc_def split: sum.splits)
  obtain y mo d hh mi ss where g: "gmtime secs = (y, mo, d, hh, mi, ss)"
    by (cases "gmtime secs") auto
  from dt(1) tv g have yr: "1 \<le> y" "y \<le> 9999"
    and f: "dt = \<lparr>year = y, month = mo, day = d, hour = hh, minute = mi, second = ss,
                   microsecond = us\<rparr>"
    by (auto simp: fromtimestamp_utc_def split: if_splits)
  note gf = gmtime_fields [OF g]
  from ord2ymd_correct [OF gf(1)]
  have c: "ymd2ord y mo d = secs div 86400 + 719163" "1 \<le> mo" "mo \<le> 12" "1 \<le> d"
    "d \<le> days_in_month y mo" by simp_all
  have e: "(ymd2ord y mo d - 719163) * 86400 + hh * 3600 + mi * 60 + ss = secs"
    unfolding c(1) using gf(8) by simp
  show ?thesis
  proof (rule that [OF tv])
    show "s = zero_pad 4 y @ ''-'' @ zero_pad 2 mo @ ''-'' @ zero_pad 2 d @ ''T''
       @ zero_pad 2 hh @ '':'' @ zero_pad 2 mi @ '':'' @ zero_pad 2 ss @ ''Z''"
      unfolding dt(2) f by (simp add: iso_seconds_def)
  qed (use yr c gf e in simp_all)
qed

lemma numeric_ts_to_iso_parse:
  assumes "numeric_ts_to_iso v = Inr s"
  obtains secs us where "timestamp_to_timeval v = Inr (secs, us)"
    "matches_iso_format s" "parse_iso_utc s = Some secs"
proof -
  from assms obtain secs us y mo d hh mi ss where
    f: "timestamp_to_timeval v = Inr (secs, us)"
    "s = zero_pad 4 y @ ''-'' @ zero_pad 2 mo @ ''-'' @ zero_pad 2 d @ ''T''
       @ zero_pad 2 hh @ '':'' @ zero_pad 2 mi @ '':'' @ zero_pad 2 ss @ ''Z''"
    "1 \<le> y" "y \<le> 9999" "1 \<le> mo" "mo \<le> 12" "1 \<le> d" "d \<le> days_in_month y mo"
    "0 \<le> hh" "hh < 24" "0 \<le> mi" "mi < 60" "0 \<le> ss" "ss < 60"
    "(ymd2ord y mo d - 719163) * 86400 + hh * 3600 + mi * 60 + ss = secs"
    by (rule numeric_ts_to_iso_fields)
  from parse_format [OF f(3-14)] f(2,15)
  have "matches_iso_format s" "parse_iso_utc s = Some secs" by simp_all
  with f(1) show ?thesis by (rule that)
qed

lemma numeric_ts_to_iso_succeeds:
  assumes "timestamp_to_timeval v = Inr (secs, us)"
    and "- 62135596800 \<le> secs" and "secs \<le> 253402300799"
  shows "\<exists>s. numeric_ts_to_iso v = Inr s"
proof -
  obtain y mo d hh mi ss where g: "gmtime secs = (y, mo, d, hh, mi, ss)"
    by (cases "gmtime secs") auto
  from gmtime_year_range [OF g assms(2,3)] have "1 \<le> y" "y \<le> 9999" by simp_all
  with assms(1) g have "\<exists>dt. fromtimestamp_utc v = Inr dt"
    by (simp add: fromtimestamp_utc_def)
  then show ?thesis by (auto simp: numeric_ts_to_iso_eq)
qed

lemma in_range_converts:
  assumes "is_numeric v" and "in_datetime_range v"
  shows "\<exists>s. numeric_ts_to_iso v = Inr s"
proof (cases v)
  case (JInt n)
  with assms(2) show ?thesis
    by (intro numeric_ts_to_iso_succeeds [of v n 0])
      (simp_all add: timestamp_to_timeval_def in_datetime_range_def)
next
  case (JBool b)
  then show ?thesis
    by (intro numeric_ts_to_iso_succeeds [of v "if b then 1 else 0" 0])
      (simp_all add: timestamp_to_timeval_def)
next
  case (JFloat f)
  with assms(2) obtain x where x: "f = Finite x" "- 62135596800 \<le> x" "x \<le> 253402300799"
    by (cases f) (simp_all add: in_datetime_range_def)
  from float_timeval_ex [of x]
  obtain secs us where t: "timestamp_to_timeval (JFloat (Finite x)) = Inr (secs, us)"
    "\<lfloor>x\<rfloor> \<le> secs" "secs \<le> \<lfloor>x\<rfloor> + 1"
    "x - of_int \<lfloor>x\<rfloor> \<le> 999999 / 1000000 \<longrightarrow> secs = \<lfloor>x\<rfloor>"
    by blast
  from x(2) have "- 62135596800 \<le> \<lfloor>x\<rfloor>" by (simp add: le_floor_iff)
  with t(2) have lo: "- 62135596800 \<le> secs" by linarith
  have hi: "secs \<le> 253402300799"
  proof (cases "x = 253402300799")
    case True
    then have fl: "\<lfloor>x\<rfloor> = 253402300799" by simp
    have "x - of_int \<lfloor>x\<rfloor> \<le> 999999 / 1000000" unfolding fl using True by simp
    with t(4) have "secs = \<lfloor>x\<rfloor>" by blast
    with fl show ?thesis by linarith
  next
    case False
    with x(3) have "x < of_int 253402300799" by simp
    then have "\<lfloor>x\<rfloor> < 253402300799" by (simp only: floor_less_iff)
    with t(3) show ?thesis by linarith
  qed
  from t(1) lo hi show ?thesis unfolding JFloat x(1) by (rule numeric_ts_to_iso_succeeds)
qed (use assms(1) in \<open>simp_all add: is_numeric_def\<close>)

lemma well_shaped_clean_one:
  assumes "well_shaped m"
  shows "\<exists>r. clean_one m = Inr r"
proof (cases "survives m")
  case False
  then show ?thesis using clean_one_None_iff [of m] by simp
next
  case True
  then have c: "dict_get m ''content'' (JStr '''') \<noteq> JStr ''''" by (simp add: survives_def)
  have "\<exists>v. working_ts m = Inr v \<and> in_datetime_range v"
  proof (cases "is_sentinel (dict_get m ''timestamp'' JNull)")
    case s: True
    show ?thesis
    proof (cases "map_of m ''metadata''")
      case None
      with s show ?thesis
        by (simp add: working_ts_def fallback_ts_def dict_get_def in_datetime_range_def)
    next
      case (Some md)
      with assms True s show ?thesis
        by (cases md)
          (simp_all add: well_shaped_def working_ts_def fallback_ts_def dict_get_def)
    qed
  next
    case False
    with assms True show ?thesis by (simp add: well_shaped_def working_ts_def)
  qed
  then obtain v where v: "working_ts m = Inr v" "in_datetime_range v" by blast
  show ?thesis
  proof (cases "is_numeric v")
    case n: True
    from in_range_converts [OF n v(2)] obtain s where "numeric_ts_to_iso v = Inr s" by blast
    with c v(1) n show ?thesis by (simp add: clean_one_def)
  next
    case False
    with c v(1) show ?thesis by (simp add: clean_one_def)
  qed
qed

lemma int_timeval: "timestamp_to_timeval (JInt n) = Inr (n, 0)"
  by (simp add: timestamp_to_timeval_def)

lemma whole_seconds:
  assumes "timestamp_to_timeval v = Inr (k, us)"
  shows "(\<forall>n. v = JInt n \<longrightarrow> k = n)
    \<and> (\<forall>x. v = JFloat (Finite x) \<longrightarrow>
          \<lfloor>x\<rfloor> \<le> k \<and> k \<le> \<lfloor>x\<rfloor> + 1 \<and> (x - of_int \<lfloor>x\<rfloor> \<le> 999999 / 1000000 \<longrightarrow> k = \<lfloor>x\<rfloor>))"
proof (intro conjI allI impI)
  fix n assume "v = JInt n"
  with assms show "k = n" by (simp add: int_timeval)
next
  fix x assume v: "v = JFloat (Finite x)"
  from float_timeval_ex [of x] assms v
  show "\<lfloor>x\<rfloor> \<le> k" "k \<le> \<lfloor>x\<rfloor> + 1" by auto
  show "k = \<lfloor>x\<rfloor>" if "x - of_int \<lfloor>x\<rfloor> \<le> 999999 / 1000000"
    using float_timeval_ex [of x] assms v that by auto
qed

lemma clean_one_not_numeric:
  assumes "clean_one m = Inr (Some m')"
  shows "\<not> is_numeric (dict_get m' ''timestamp'' JNull)"
  using assms
proof (cases rule: clean_one_cases)
  case (converted ts s)
  then show ?thesis by (simp add: dict_get_dict_set is_numeric_def)
next
  case removed
  then show ?thesis by (simp add: dict_get_dict_pop is_numeric_def)
next
  case (kept ts)
  show ?thesis
  proof (cases "is_sentinel (dict_get m ''timestamp'' JNull)")
    case True
    then show ?thesis unfolding kept(4) by (auto simp: is_sentinel_def is_numeric_def)
  next
    case False
    with kept(1) have "dict_get m ''timestamp'' JNull = ts" by (simp add: working_ts_def)
    with kept(2,4) show ?thesis by simp
  qed
qed

lemma clean_messages_output:
  assumes "clean_messages ms = Inr out"
  shows "list_all (\<lambda>r. survives r \<and> \<not> is_numeric (dict_get r ''timestamp'' JNull)) out"
proof -
  have "survives r \<and> \<not> is_numeric (dict_get r ''timestamp'' JNull)" if "r \<in> set out" for r
  proof -
    from clean_messages_corr [OF assms] that obtain m where "clean_one m = Inr (Some r)"
      by (auto simp: list_all2_conv_all_nth in_set_conv_nth)
    then show ?thesis using survives_frame clean_one_not_numeric by blast
  qed
  then show ?thesis by (simp add: list_all_iff)
qed

section \<open>The content filter\<close>

text \<open>
  C1, as the specification states it: a record without a \<open>content\<close> key is kept. The
  script looks the key up with the default \<open>""\<close> and compares the result with \<open>""\<close>, so a
  record without the key is skipped like one whose content is the empty string. Here a
  list of one such record is cleaned to the empty list.
\<close>

theorem absent_content_counterexample:
  "map_of [(''role'', JStr ''user''), (''timestamp'', JInt 5)] ''content'' = None
   \<and> clean_messages [[(''role'', JStr ''user''), (''timestamp'', JInt 5)]] = Inr []"
  by (simp add: clean_messages_def clean_one_def dict_get_def)

text \<open>
  C1, amended: every record whose \<open>content\<close> key is absent is dropped. The loop skips
  it, and the run on a list that holds it is the run on the list without it.
\<close>

theorem absent_content_dropped:
  "map_of m ''content'' = None \<Longrightarrow>
     clean_one m = Inr None \<and> clean_messages (xs @ m # ys) = clean_messages (xs @ ys)"
proof -
  assume "map_of m ''content'' = None"
  then have "clean_one m = Inr None" by (simp add: clean_one_def dict_get_def)
  then show ?thesis by (simp add: clean_messages_skip)
qed

theorem absent_content_dropped_witness:
  "map_of [(''role'', JStr ''user'')] ''content'' = None
   \<and> clean_one [(''role'', JStr ''user'')] = Inr None
   \<and> clean_messages ([[(''content'', JStr ''hi'')]] @ [(''role'', JStr ''user'')] # [])
       = clean_messages ([[(''content'', JStr ''hi'')]] @ [])"
  using absent_content_dropped [of "[(''role'', JStr ''user'')]" "[[(''content'', JStr ''hi'')]]" "[]"]
  by simp

text \<open>
  C7: a record whose \<open>content\<close> is present and equal to the empty string is dropped,
  whatever its other fields are: the loop skips it, the run on a list that holds it is
  the run on the list without it, and no record of the output has the empty string as
  its content.
\<close>

theorem empty_content_dropped:
  assumes "map_of m ''content'' = Some (JStr '''')"
  shows "clean_one m = Inr None
    \<and> clean_messages (xs @ m # ys) = clean_messages (xs @ ys)
    \<and> (clean_messages (xs @ m # ys) = Inr out \<longrightarrow>
         (\<forall>r \<in> set out. map_of r ''content'' \<noteq> Some (JStr '''')))"
proof -
  from assms have d: "clean_one m = Inr None" by (simp add: clean_one_def dict_get_def)
  have "map_of r ''content'' \<noteq> Some (JStr '''')"
    if run: "clean_messages (xs @ m # ys) = Inr out" and r: "r \<in> set out" for r
  proof -
    from clean_messages_corr [OF run] r obtain m0 where "clean_one m0 = Inr (Some r)"
      by (auto simp: list_all2_conv_all_nth in_set_conv_nth)
    then have "survives r" by (rule survives_frame)
    then show ?thesis by (auto simp: survives_def dict_get_def)
  qed
  with d show ?thesis by (simp add: clean_messages_skip)
qed

theorem empty_content_dropped_witness:
  "map_of [(''content'', JStr ''''), (''timestamp'', JInt 5)] ''content'' = Some (JStr '''')
   \<and> clean_one [(''content'', JStr ''''), (''timestamp'', JInt 5)] = Inr None
   \<and> clean_messages ([[(''content'', JStr ''hi'')]] @ [(''content'', JStr ''''), (''timestamp'', JInt 5)] # [])
       = Inr [[(''content'', JStr ''hi'')]]
   \<and> map_of [(''content'', JStr ''hi'')] ''content'' \<noteq> Some (JStr '''')"
proof -
  have run: "clean_messages ([[(''content'', JStr ''hi'')]] @ [(''content'', JStr ''''), (''timestamp'', JInt 5)] # [])
       = Inr [[(''content'', JStr ''hi'')]]"
    by code_simp
  have h: "map_of [(''content'', JStr ''''), (''timestamp'', JInt 5)] ''content'' = Some (JStr '''')"
    by simp
  from empty_content_dropped [OF h, of "[[(''content'', JStr ''hi'')]]" "[]" "[[(''content'', JStr ''hi'')]]"] run h
  show ?thesis by simp
qed

section \<open>Order and frame\<close>

text \<open>
  C8: when the run returns, its output is, position by position and in the order of the
  input, the cleaned form of the input records that pass the content test: nothing is
  reordered, repeated or inserted.
\<close>

theorem order_preserved:
  "clean_messages ms = Inr out \<Longrightarrow>
     list_all2 (\<lambda>m m'. clean_one m = Inr (Some m')) (filter survives ms) out
     \<and> length out = length (filter survives ms)"
proof -
  assume "clean_messages ms = Inr out"
  then have "list_all2 (\<lambda>m m'. clean_one m = Inr (Some m')) (filter survives ms) out"
    by (rule clean_messages_corr)
  then show ?thesis by (simp add: list_all2_lengthD)
qed

theorem order_preserved_witness:
  "clean_messages [[(''content'', JStr ''a'')], [(''content'', JStr '''')], [(''content'', JStr ''b''), (''timestamp'', JNull)]]
     = Inr [[(''content'', JStr ''a'')], [(''content'', JStr ''b'')]]
   \<and> list_all2 (\<lambda>m m'. clean_one m = Inr (Some m'))
        (filter survives [[(''content'', JStr ''a'')], [(''content'', JStr '''')], [(''content'', JStr ''b''), (''timestamp'', JNull)]])
        [[(''content'', JStr ''a'')], [(''content'', JStr ''b'')]]
   \<and> length [[(''content'', JStr ''a'')], [(''content'', JStr ''b'')]]
       = length (filter survives [[(''content'', JStr ''a'')], [(''content'', JStr '''')], [(''content'', JStr ''b''), (''timestamp'', JNull)]])"
proof -
  have run: "clean_messages [[(''content'', JStr ''a'')], [(''content'', JStr '''')], [(''content'', JStr ''b''), (''timestamp'', JNull)]]
     = Inr [[(''content'', JStr ''a'')], [(''content'', JStr ''b'')]]"
    by code_simp
  from order_preserved [OF run] run show ?thesis by simp
qed

text \<open>
  C9: in a record that survives, every key other than \<open>timestamp\<close> has the value it had
  in the input, and the entries under the other keys are the same, in the same order.
\<close>

theorem other_fields_unchanged:
  "clean_one m = Inr (Some m') \<Longrightarrow>
     (\<forall>k. k \<noteq> ''timestamp'' \<longrightarrow> map_of m' k = map_of m k)
     \<and> filter (\<lambda>kv. fst kv \<noteq> ''timestamp'') m' = filter (\<lambda>kv. fst kv \<noteq> ''timestamp'') m"
  by (simp add: clean_one_frame_map clean_one_frame_list)

theorem other_fields_unchanged_witness:
  "clean_one [(''content'', JStr ''hi''), (''timestamp'', JInt 0), (''role'', JStr ''user'')]
     = Inr (Some [(''content'', JStr ''hi''), (''timestamp'', JStr ''1970-01-01T00:00:00Z''), (''role'', JStr ''user'')])
   \<and> map_of [(''content'', JStr ''hi''), (''timestamp'', JStr ''1970-01-01T00:00:00Z''), (''role'', JStr ''user'')] ''role''
       = map_of [(''content'', JStr ''hi''), (''timestamp'', JInt 0), (''role'', JStr ''user'')] ''role''
   \<and> filter (\<lambda>kv. fst kv \<noteq> ''timestamp'')
         [(''content'', JStr ''hi''), (''timestamp'', JStr ''1970-01-01T00:00:00Z''), (''role'', JStr ''user'')]
       = filter (\<lambda>kv. fst kv \<noteq> ''timestamp'')
         [(''content'', JStr ''hi''), (''timestamp'', JInt 0), (''role'', JStr ''user'')]"
proof -
  have run: "clean_one [(''content'', JStr ''hi''), (''timestamp'', JInt 0), (''role'', JStr ''user'')]
     = Inr (Some [(''content'', JStr ''hi''), (''timestamp'', JStr ''1970-01-01T00:00:00Z''), (''role'', JStr ''user'')])"
    by code_simp
  from other_fields_unchanged [OF run] run show ?thesis by simp
qed

section \<open>Idempotence\<close>

text \<open>
  C10, as the specification states it: the cleaned output has no timestamp left that is
  null, empty or \<open>"null"\<close> and would be substituted. Here the timestamp is null and the
  fallback is a string: the record is in the output as it came in, its timestamp is
  still null, and a second run substitutes the same string again.
\<close>

theorem sentinel_left_counterexample:
  "clean_messages [[(''content'', JStr ''hi''), (''timestamp'', JNull),
              (''metadata'', JObj [(''conversation_create_time'', JStr ''yesterday'')])]]
     = Inr [[(''content'', JStr ''hi''), (''timestamp'', JNull),
              (''metadata'', JObj [(''conversation_create_time'', JStr ''yesterday'')])]]
   \<and> is_sentinel (dict_get [(''content'', JStr ''hi''), (''timestamp'', JNull),
              (''metadata'', JObj [(''conversation_create_time'', JStr ''yesterday'')])]
          ''timestamp'' JNull)
   \<and> fallback_ts [(''content'', JStr ''hi''), (''timestamp'', JNull),
              (''metadata'', JObj [(''conversation_create_time'', JStr ''yesterday'')])]
     = Inr (JStr ''yesterday'')"
  by code_simp

text \<open>
  C10, amended: cleaning is idempotent: when the run on a list returns, the run on its
  output returns that output again; every record of the output passes the content test
  and has no numeric timestamp left to convert. Whether a timestamp that is null, empty
  or \<open>"null"\<close> can remain is left open.
\<close>

theorem clean_messages_idempotent:
  "clean_messages ms = Inr out \<Longrightarrow>
     clean_messages out = Inr out
     \<and> list_all (\<lambda>r. survives r \<and> \<not> is_numeric (dict_get r ''timestamp'' JNull)) out"
  using clean_messages_corr clean_messages_fixed clean_messages_output by blast

theorem clean_messages_idempotent_witness:
  "clean_messages [[(''content'', JStr ''hi''), (''timestamp'', JInt 0)], [(''content'', JStr '''')], [(''content'', JStr ''yo''), (''timestamp'', JStr ''null'')]]
     = Inr [[(''content'', JStr ''hi''), (''timestamp'', JStr ''1970-01-01T00:00:00Z'')], [(''content'', JStr ''yo'')]]
   \<and> clean_messages [[(''content'', JStr ''hi''), (''timestamp'', JStr ''1970-01-01T00:00:00Z'')], [(''content'', JStr ''yo'')]]
     = Inr [[(''content'', JStr ''hi''), (''timestamp'', JStr ''1970-01-01T00:00:00Z'')], [(''content'', JStr ''yo'')]]
   \<and> list_all (\<lambda>r. survives r \<and> \<not> is_numeric (dict_get r ''timestamp'' JNull))
         [[(''content'', JStr ''hi''), (''timestamp'', JStr ''1970-01-01T00:00:00Z'')], [(''content'', JStr ''yo'')]]"
proof -
  have run: "clean_messages [[(''content'', JStr ''hi''), (''timestamp'', JInt 0)], [(''content'', JStr '''')], [(''content'', JStr ''yo''), (''timestamp'', JStr ''null'')]]
     = Inr [[(''content'', JStr ''hi''), (''timestamp'', JStr ''1970-01-01T00:00:00Z'')], [(''content'', JStr ''yo'')]]"
    by code_simp
  from clean_messages_idempotent [OF run] run show ?thesis by (simp only: simp_thms)
qed

section \<open>The fallback\<close>

text \<open>
  C2 at an input where the claim and the script part. The timestamp is null and
  \<open>metadata.conversation_create_time\<close> is a string, so the working value after the
  fallback is that string, neither a number nor null. The claim gives the output record
  that string as its timestamp. The script writes the working value into the record
  only after converting a number, so the record goes out as it came in, with a null
  timestamp.
\<close>

theorem string_fallback_not_written:
  "working_ts [(''content'', JStr ''hi''), (''timestamp'', JNull),
               (''metadata'', JObj [(''conversation_create_time'', JStr ''2021-05-01T00:00:00Z'')])]
     = Inr (JStr ''2021-05-01T00:00:00Z'')
   \<and> clean_messages [[(''content'', JStr ''hi''), (''timestamp'', JNull),
               (''metadata'', JObj [(''conversation_create_time'', JStr ''2021-05-01T00:00:00Z'')])]]
     = Inr [[(''content'', JStr ''hi''), (''timestamp'', JNull),
               (''metadata'', JObj [(''conversation_create_time'', JStr ''2021-05-01T00:00:00Z'')])]]"
  by code_simp

text \<open>
  C4, as the specification states it: with a numeric fallback the output timestamp is
  the conversion of the specification, which cuts the number to whole seconds. The
  fallback here is the binary64 number \<open>1 - 2\<^sup>-\<^sup>3\<^sup>0\<close>, whose whole seconds are 0; the
  text for second 0 ends in \<open>00:00:00Z\<close>, and the record goes out with the text of
  second 1.
\<close>

theorem float_fallback_counterexample:
  "clean_one [(''content'', JStr ''hi''), (''timestamp'', JNull),
              (''metadata'', JObj [(''conversation_create_time'',
                                    JFloat (Finite (1073741823 / 1073741824)))])]
     = Inr (Some [(''content'', JStr ''hi''), (''timestamp'', JStr ''1970-01-01T00:00:01Z''),
              (''metadata'', JObj [(''conversation_create_time'',
                                    JFloat (Finite (1073741823 / 1073741824)))])])
   \<and> py_trunc (1073741823 / 1073741824) = 0
   \<and> \<lfloor>1073741823 / 1073741824 :: rat\<rfloor> = 0
   \<and> numeric_ts_to_iso (JInt 0) = Inr ''1970-01-01T00:00:00Z''"
  by code_simp

text \<open>
  C4, amended: let a record pass the content test with a \<open>timestamp\<close> that is missing,
  null, the empty string or \<open>"null"\<close>. If \<open>metadata\<close> is a mapping whose
  \<open>conversation_create_time\<close> is a number that \<open>datetime\<close> can hold, the record is kept
  and its \<open>timestamp\<close> is set to the text of \<open>numeric_ts_to_iso\<close> for that number: a text
  of the form \<open>YYYY-MM-DDTHH:MM:SSZ\<close> that reads back as the number itself when it is an
  integer, and as \<open>\<lfloor>x\<rfloor>\<close> or \<open>\<lfloor>x\<rfloor> + 1\<close> when it is a float \<open>x\<close> (as \<open>\<lfloor>x\<rfloor>\<close> whenever the
  fractional part of \<open>x\<close> is at most 0.999999). If \<open>metadata\<close> is missing, or is a mapping
  without \<open>conversation_create_time\<close>, the record is kept with its \<open>timestamp\<close> key
  removed.
\<close>

theorem fallback_timestamp:
  assumes "survives m"
    and "map_of m ''timestamp'' \<in> {None, Some JNull, Some (JStr ''''), Some (JStr ''null'')}"
  shows "(map_of m ''metadata'' = Some (JObj md)
            \<and> map_of md ''conversation_create_time'' = Some v
            \<and> is_numeric v \<and> in_datetime_range v
          \<longrightarrow> (\<exists>s k. clean_one m = Inr (Some (dict_set m ''timestamp'' (JStr s)))
                \<and> map_of (dict_set m ''timestamp'' (JStr s)) ''timestamp'' = Some (JStr s)
                \<and> numeric_ts_to_iso v = Inr s
                \<and> matches_iso_format s \<and> parse_iso_utc s = Some k
                \<and> (\<forall>n. v = JInt n \<longrightarrow> k = n)
                \<and> (\<forall>x. v = JFloat (Finite x) \<longrightarrow>
                      \<lfloor>x\<rfloor> \<le> k \<and> k \<le> \<lfloor>x\<rfloor> + 1
                      \<and> (x - of_int \<lfloor>x\<rfloor> \<le> 999999 / 1000000 \<longrightarrow> k = \<lfloor>x\<rfloor>))))
       \<and> (map_of m ''metadata'' = None
            \<or> (map_of m ''metadata'' = Some (JObj md) \<and> map_of md ''conversation_create_time'' = None)
          \<longrightarrow> clean_one m = Inr (Some (dict_pop m ''timestamp''))
              \<and> map_of (dict_pop m ''timestamp'') ''timestamp'' = None)"
proof -
  from assms(1) have c: "dict_get m ''content'' (JStr '''') \<noteq> JStr ''''"
    by (simp add: survives_def)
  from assms(2) have w: "working_ts m = fallback_ts m"
    by (auto simp: working_ts_def dict_get_def is_sentinel_def)
  have a: "\<exists>s k. clean_one m = Inr (Some (dict_set m ''timestamp'' (JStr s)))
                \<and> map_of (dict_set m ''timestamp'' (JStr s)) ''timestamp'' = Some (JStr s)
                \<and> numeric_ts_to_iso v = Inr s
                \<and> matches_iso_format s \<and> parse_iso_utc s = Some k
                \<and> (\<forall>n. v = JInt n \<longrightarrow> k = n)
                \<and> (\<forall>x. v = JFloat (Finite x) \<longrightarrow>
                      \<lfloor>x\<rfloor> \<le> k \<and> k \<le> \<lfloor>x\<rfloor> + 1
                      \<and> (x - of_int \<lfloor>x\<rfloor> \<le> 999999 / 1000000 \<longrightarrow> k = \<lfloor>x\<rfloor>))"
    if h: "map_of m ''metadata'' = Some (JObj md)"
      "map_of md ''conversation_create_time'' = Some v" "is_numeric v" "in_datetime_range v"
  proof -
    from h(1,2) have wv: "working_ts m = Inr v" by (simp add: w fallback_ts_def dict_get_def)
    from in_range_converts [OF h(3,4)] obtain s where s: "numeric_ts_to_iso v = Inr s" by blast
    from c wv h(3) s have run: "clean_one m = Inr (Some (dict_set m ''timestamp'' (JStr s)))"
      by (simp add: clean_one_def)
    from s obtain k us where k: "timestamp_to_timeval v = Inr (k, us)"
      "matches_iso_format s" "parse_iso_utc s = Some k"
      by (rule numeric_ts_to_iso_parse)
    have "map_of (dict_set m ''timestamp'' (JStr s)) ''timestamp'' = Some (JStr s)"
      by (simp add: map_of_dict_set)
    with run s k(2,3) whole_seconds [OF k(1)] show ?thesis by blast
  qed
  have b: "clean_one m = Inr (Some (dict_pop m ''timestamp''))
              \<and> map_of (dict_pop m ''timestamp'') ''timestamp'' = None"
    if "map_of m ''metadata'' = None
        \<or> (map_of m ''metadata'' = Some (JObj md) \<and> map_of md ''conversation_create_time'' = None)"
  proof -
    from that have "working_ts m = Inr JNull" by (auto simp: w fallback_ts_def dict_get_def)
    with c show ?thesis by (simp add: clean_one_def is_numeric_def map_of_dict_pop)
  qed
  from a b show ?thesis by blast
qed

theorem fallback_timestamp_witness:
  "clean_one [(''content'', JStr ''hi''), (''timestamp'', JNull),
              (''metadata'', JObj [(''conversation_create_time'', JInt 1700000000)])]
     = Inr (Some [(''content'', JStr ''hi''), (''timestamp'', JStr ''2023-11-14T22:13:20Z''),
              (''metadata'', JObj [(''conversation_create_time'', JInt 1700000000)])])
   \<and> parse_iso_utc ''2023-11-14T22:13:20Z'' = Some 1700000000
   \<and> clean_one [(''content'', JStr ''hi''), (''timestamp'', JStr '''')]
     = Inr (Some [(''content'', JStr ''hi'')])
   \<and> map_of [(''content'', JStr ''hi'')] ''timestamp'' = None"
proof -
  let ?md = "[(''conversation_create_time'', JInt 1700000000)]"
  let ?m = "[(''content'', JStr ''hi''), (''timestamp'', JNull), (''metadata'', JObj ?md)]"
  have sv1: "survives ?m" by (simp add: survives_def dict_get_def)
  have s1: "map_of ?m ''timestamp'' \<in> {None, Some JNull, Some (JStr ''''), Some (JStr ''null'')}"
    by simp
  have h1: "map_of ?m ''metadata'' = Some (JObj ?md)
      \<and> map_of ?md ''conversation_create_time'' = Some (JInt 1700000000)
      \<and> is_numeric (JInt 1700000000) \<and> in_datetime_range (JInt 1700000000)"
    by (simp add: is_numeric_def in_datetime_range_def)
  have iso: "numeric_ts_to_iso (JInt 1700000000) = Inr ''2023-11-14T22:13:20Z''"
    by code_simp
  from fallback_timestamp [OF sv1 s1, of ?md "JInt 1700000000"] h1 obtain s k where
    sk: "clean_one ?m = Inr (Some (dict_set ?m ''timestamp'' (JStr s)))"
      "numeric_ts_to_iso (JInt 1700000000) = Inr s" "parse_iso_utc s = Some k"
      "\<forall>n. JInt 1700000000 = JInt n \<longrightarrow> k = n"
    by blast
  from sk(2) iso have s: "s = ''2023-11-14T22:13:20Z''" by simp
  from sk(4) have k: "k = 1700000000" by blast
  from sk(1) have a: "clean_one ?m
     = Inr (Some [(''content'', JStr ''hi''), (''timestamp'', JStr ''2023-11-14T22:13:20Z''),
              (''metadata'', JObj ?md)])"
    unfolding s by simp
  from sk(3) have b: "parse_iso_utc ''2023-11-14T22:13:20Z'' = Some 1700000000"
    unfolding s k .
  let ?n = "[(''content'', JStr ''hi''), (''timestamp'', JStr '''')]"
  have sv2: "survives ?n" by (simp add: survives_def dict_get_def)
  have s2: "map_of ?n ''timestamp'' \<in> {None, Some JNull, Some (JStr ''''), Some (JStr ''null'')}"
    by simp
  have h2: "map_of ?n ''metadata'' = None" by simp
  from fallback_timestamp [OF sv2 s2, of "[]" JNull] h2
  have "clean_one ?n = Inr (Some (dict_pop ?n ''timestamp''))
      \<and> map_of (dict_pop ?n ''timestamp'') ''timestamp'' = None"
    by blast
  then have c: "clean_one ?n = Inr (Some [(''content'', JStr ''hi'')])
      \<and> map_of [(''content'', JStr ''hi'')] ''timestamp'' = None"
    by (simp add: dict_pop_def)
  from a b c show ?thesis by (simp only: simp_thms)
qed

section \<open>Exceptions\<close>

text \<open>
  C3, as the specification states it: no list of records makes the cleaning raise, a
  \<open>metadata\<close> that is not a mapping included. Here \<open>metadata\<close> is null and the timestamp
  is missing: \<open>msg.get("metadata", {})\<close> returns \<open>None\<close>, which has no \<open>get\<close>.
\<close>

theorem metadata_null_counterexample:
  "clean_messages [[(''content'', JStr ''hi''), (''metadata'', JNull)]] = Inl AttributeError"
  by code_simp

text \<open>
  C3, amended: the cleaning raises no error on a list of records that are all well
  shaped, that is, on records where the \<open>metadata\<close> that the fallback reads is missing
  or a mapping and the number that becomes the working timestamp is one that \<open>datetime\<close>
  can hold. A missing \<open>content\<close>, \<open>timestamp\<close>, \<open>metadata\<close> or
  \<open>conversation_create_time\<close> never raises. What the script does with a \<open>metadata\<close> of
  another shape is left open.
\<close>

theorem no_error_on_well_shaped:
  "list_all well_shaped ms \<Longrightarrow> \<exists>out. clean_messages ms = Inr out"
proof (induction ms)
  case Nil
  show ?case by (simp add: clean_messages_Nil)
next
  case (Cons m ms)
  then obtain out where out: "clean_messages ms = Inr out" by auto
  from Cons.prems have "well_shaped m" by simp
  then obtain r where "clean_one m = Inr r" using well_shaped_clean_one by blast
  with out show ?case by (cases r) (simp_all add: clean_messages_Cons)
qed

theorem no_error_on_well_shaped_witness:
  "list_all well_shaped
     [[(''content'', JStr ''hi''), (''timestamp'', JInt 0)],
      [(''content'', JStr ''''), (''metadata'', JNull)],
      [(''role'', JStr ''user'')],
      [(''content'', JStr ''yo''), (''timestamp'', JNull),
       (''metadata'', JObj [(''conversation_create_time'', JFloat (Finite (3 / 2)))])]]
   \<and> (\<exists>out. clean_messages
     [[(''content'', JStr ''hi''), (''timestamp'', JInt 0)],
      [(''content'', JStr ''''), (''metadata'', JNull)],
      [(''role'', JStr ''user'')],
      [(''content'', JStr ''yo''), (''timestamp'', JNull),
       (''metadata'', JObj [(''conversation_create_time'', JFloat (Finite (3 / 2)))])]] = Inr out)"
proof -
  have h: "list_all well_shaped
     [[(''content'', JStr ''hi''), (''timestamp'', JInt 0)],
      [(''content'', JStr ''''), (''metadata'', JNull)],
      [(''role'', JStr ''user'')],
      [(''content'', JStr ''yo''), (''timestamp'', JNull),
       (''metadata'', JObj [(''conversation_create_time'', JFloat (Finite (3 / 2)))])]]"
    by code_simp
  from no_error_on_well_shaped [OF h] h show ?thesis by simp
qed

section \<open>The conversion\<close>

text \<open>
  C5, as the specification states it: the text written for a numeric timestamp reads
  back as the input cut to whole seconds. The input here is the binary64 number
  \<open>1 - 2\<^sup>-\<^sup>3\<^sup>0\<close>, whose whole seconds are 0. \<open>datetime.fromtimestamp\<close> rounds it to the
  nearest microsecond, which is second 1, before \<open>replace(microsecond=0)\<close> drops the
  fraction, and the text reads back as 1.
\<close>

theorem float_round_trip_counterexample:
  "clean_one [(''content'', JStr ''hi''), (''timestamp'', JFloat (Finite (1073741823 / 1073741824)))]
     = Inr (Some [(''content'', JStr ''hi''), (''timestamp'', JStr ''1970-01-01T00:00:01Z'')])
   \<and> parse_iso_utc ''1970-01-01T00:00:01Z'' = Some 1
   \<and> py_trunc (1073741823 / 1073741824) = 0
   \<and> \<lfloor>1073741823 / 1073741824 :: rat\<rfloor> = 0"
  by code_simp

text \<open>
  C5, amended: in a record that survives with a numeric input timestamp, the output
  timestamp is a text of the form \<open>YYYY-MM-DDTHH:MM:SSZ\<close>. Read back as an instant in
  UTC it gives the input itself when the input is an integer. When the input is a float
  \<open>x\<close> it gives \<open>\<lfloor>x\<rfloor>\<close> or \<open>\<lfloor>x\<rfloor> + 1\<close>, and \<open>\<lfloor>x\<rfloor>\<close> whenever the fractional part of
  \<open>x\<close> is at most 0.999999.
\<close>

theorem numeric_timestamp_round_trip:
  assumes "clean_one m = Inr (Some m')" and "map_of m ''timestamp'' = Some v" and "is_numeric v"
  shows "\<exists>s k. map_of m' ''timestamp'' = Some (JStr s)
      \<and> matches_iso_format s \<and> parse_iso_utc s = Some k
      \<and> (\<forall>n. v = JInt n \<longrightarrow> k = n)
      \<and> (\<forall>x. v = JFloat (Finite x) \<longrightarrow>
            \<lfloor>x\<rfloor> \<le> k \<and> k \<le> \<lfloor>x\<rfloor> + 1 \<and> (x - of_int \<lfloor>x\<rfloor> \<le> 999999 / 1000000 \<longrightarrow> k = \<lfloor>x\<rfloor>))"
proof -
  from assms(2,3) have "\<not> is_sentinel v" by (auto simp: is_sentinel_def is_numeric_def)
  with assms(2) have w: "working_ts m = Inr v" by (simp add: working_ts_def dict_get_def)
  from assms(1) w assms(3) obtain s where s: "numeric_ts_to_iso v = Inr s"
    "m' = dict_set m ''timestamp'' (JStr s)"
    by (auto simp: clean_one_def split: if_splits sum.splits)
  from s(1) obtain k us where k: "timestamp_to_timeval v = Inr (k, us)"
    "matches_iso_format s" "parse_iso_utc s = Some k"
    by (rule numeric_ts_to_iso_parse)
  have "map_of m' ''timestamp'' = Some (JStr s)" by (simp add: s(2) map_of_dict_set)
  with k(2,3) whole_seconds [OF k(1)] show ?thesis by blast
qed

theorem numeric_timestamp_round_trip_witness:
  "clean_one [(''content'', JStr ''hi''), (''timestamp'', JInt 1700000000)]
     = Inr (Some [(''content'', JStr ''hi''), (''timestamp'', JStr ''2023-11-14T22:13:20Z'')])
   \<and> matches_iso_format ''2023-11-14T22:13:20Z''
   \<and> parse_iso_utc ''2023-11-14T22:13:20Z'' = Some 1700000000
   \<and> clean_one [(''content'', JStr ''hi''), (''timestamp'', JFloat (Finite (3 / 2)))]
     = Inr (Some [(''content'', JStr ''hi''), (''timestamp'', JStr ''1970-01-01T00:00:01Z'')])
   \<and> parse_iso_utc ''1970-01-01T00:00:01Z'' = Some 1"
proof -
  let ?m = "[(''content'', JStr ''hi''), (''timestamp'', JInt 1700000000)]"
  let ?m' = "[(''content'', JStr ''hi''), (''timestamp'', JStr ''2023-11-14T22:13:20Z'')]"
  have run: "clean_one ?m = Inr (Some ?m')" by code_simp
  have ts: "map_of ?m ''timestamp'' = Some (JInt 1700000000)" by simp
  have num: "is_numeric (JInt 1700000000)" by (simp add: is_numeric_def)
  from numeric_timestamp_round_trip [OF run ts num]
  have a: "matches_iso_format ''2023-11-14T22:13:20Z''
      \<and> parse_iso_utc ''2023-11-14T22:13:20Z'' = Some 1700000000"
    by auto
  let ?n = "[(''content'', JStr ''hi''), (''timestamp'', JFloat (Finite (3 / 2)))]"
  let ?n' = "[(''content'', JStr ''hi''), (''timestamp'', JStr ''1970-01-01T00:00:01Z'')]"
  have run2: "clean_one ?n = Inr (Some ?n')" by code_simp
  have ts2: "map_of ?n ''timestamp'' = Some (JFloat (Finite (3 / 2)))" by simp
  have num2: "is_numeric (JFloat (Finite (3 / 2)))" by (simp add: is_numeric_def)
  have fl: "\<lfloor>3 / 2 :: rat\<rfloor> = 1" by code_simp
  have frac: "(3 / 2 :: rat) - of_int \<lfloor>3 / 2 :: rat\<rfloor> \<le> 999999 / 1000000"
    unfolding fl by simp
  from numeric_timestamp_round_trip [OF run2 ts2 num2] obtain s k where
    sk: "map_of ?n' ''timestamp'' = Some (JStr s)" "parse_iso_utc s = Some k"
      "\<forall>x. JFloat (Finite (3 / 2)) = JFloat (Finite x) \<longrightarrow>
            \<lfloor>x\<rfloor> \<le> k \<and> k \<le> \<lfloor>x\<rfloor> + 1 \<and> (x - of_int \<lfloor>x\<rfloor> \<le> 999999 / 1000000 \<longrightarrow> k = \<lfloor>x\<rfloor>)"
    by blast
  from sk(1) have s: "s = ''1970-01-01T00:00:01Z''" by simp
  from sk(3) have "(3 / 2 :: rat) - of_int \<lfloor>3 / 2 :: rat\<rfloor> \<le> 999999 / 1000000 \<longrightarrow> k = \<lfloor>3 / 2 :: rat\<rfloor>"
    by blast
  with frac have "k = \<lfloor>3 / 2 :: rat\<rfloor>" by blast
  then have "k = 1" by (simp only: fl)
  with sk(2) s have b: "parse_iso_utc ''1970-01-01T00:00:01Z'' = Some 1"
    by (simp only:)
  from run a run2 b show ?thesis by simp
qed

text \<open>
  C6, as the specification states it: the conversion drops the part of its argument
  below one second. The argument here is the binary64 number \<open>1 - 2\<^sup>-\<^sup>3\<^sup>0\<close>; its whole
  seconds are 0, the text for 0 ends in \<open>00:00:00Z\<close>, and the conversion returns the text
  of second 1.
\<close>

theorem sub_second_counterexample:
  "numeric_ts_to_iso (JFloat (Finite (1073741823 / 1073741824))) = Inr ''1970-01-01T00:00:01Z''
   \<and> \<lfloor>1073741823 / 1073741824 :: rat\<rfloor> = 0
   \<and> numeric_ts_to_iso (JInt 0) = Inr ''1970-01-01T00:00:00Z''"
  by code_simp

text \<open>
  C6, amended: for epoch value 0 the conversion returns exactly
  \<open>1970-01-01T00:00:00Z\<close>. Whatever it returns has the form \<open>YYYY-MM-DDTHH:MM:SSZ\<close> and
  is the zero-padded year, month, day, hour, minute and second of a date of the calendar
  and a time of day that lie \<open>k\<close> seconds from 1970-01-01T00:00:00, counted in UTC with
  no offset. For an integer argument \<open>k\<close> is the argument. For a float argument \<open>x\<close>,
  which \<open>datetime.fromtimestamp\<close> rounds to the nearest microsecond before the fraction
  is dropped, \<open>k\<close> is \<open>\<lfloor>x\<rfloor>\<close> or \<open>\<lfloor>x\<rfloor> + 1\<close>, and \<open>\<lfloor>x\<rfloor>\<close> whenever the fractional part
  of \<open>x\<close> is at most 0.999999.
\<close>

theorem numeric_ts_to_iso_utc:
  "numeric_ts_to_iso (JInt 0) = Inr ''1970-01-01T00:00:00Z''
   \<and> (numeric_ts_to_iso v = Inr s \<longrightarrow>
        (\<exists>y mo d hh mi ss k.
           s = zero_pad 4 y @ ''-'' @ zero_pad 2 mo @ ''-'' @ zero_pad 2 d @ ''T''
               @ zero_pad 2 hh @ '':'' @ zero_pad 2 mi @ '':'' @ zero_pad 2 ss @ ''Z''
           \<and> matches_iso_format s
           \<and> 1 \<le> y \<and> y \<le> 9999 \<and> 1 \<le> mo \<and> mo \<le> 12 \<and> 1 \<le> d \<and> d \<le> days_in_month y mo
           \<and> 0 \<le> hh \<and> hh < 24 \<and> 0 \<le> mi \<and> mi < 60 \<and> 0 \<le> ss \<and> ss < 60
           \<and> (ymd2ord y mo d - 719163) * 86400 + hh * 3600 + mi * 60 + ss = k
           \<and> (\<forall>n. v = JInt n \<longrightarrow> k = n)
           \<and> (\<forall>x. v = JFloat (Finite x) \<longrightarrow>
                 \<lfloor>x\<rfloor> \<le> k \<and> k \<le> \<lfloor>x\<rfloor> + 1
                 \<and> (x - of_int \<lfloor>x\<rfloor> \<le> 999999 / 1000000 \<longrightarrow> k = \<lfloor>x\<rfloor>))))"
proof (intro conjI impI)
  show "numeric_ts_to_iso (JInt 0) = Inr ''1970-01-01T00:00:00Z''" by code_simp
next
  assume a: "numeric_ts_to_iso v = Inr s"
  then obtain k us y mo d hh mi ss where
    f: "timestamp_to_timeval v = Inr (k, us)"
    "s = zero_pad 4 y @ ''-'' @ zero_pad 2 mo @ ''-'' @ zero_pad 2 d @ ''T''
       @ zero_pad 2 hh @ '':'' @ zero_pad 2 mi @ '':'' @ zero_pad 2 ss @ ''Z''"
    "1 \<le> y" "y \<le> 9999" "1 \<le> mo" "mo \<le> 12" "1 \<le> d" "d \<le> days_in_month y mo"
    "0 \<le> hh" "hh < 24" "0 \<le> mi" "mi < 60" "0 \<le> ss" "ss < 60"
    "(ymd2ord y mo d - 719163) * 86400 + hh * 3600 + mi * 60 + ss = k"
    by (rule numeric_ts_to_iso_fields)
  from parse_format [OF f(3-14)] f(2) have m: "matches_iso_format s" by simp
  note w = whole_seconds [OF f(1)]
  show "\<exists>y mo d hh mi ss k.
           s = zero_pad 4 y @ ''-'' @ zero_pad 2 mo @ ''-'' @ zero_pad 2 d @ ''T''
               @ zero_pad 2 hh @ '':'' @ zero_pad 2 mi @ '':'' @ zero_pad 2 ss @ ''Z''
           \<and> matches_iso_format s
           \<and> 1 \<le> y \<and> y \<le> 9999 \<and> 1 \<le> mo \<and> mo \<le> 12 \<and> 1 \<le> d \<and> d \<le> days_in_month y mo
           \<and> 0 \<le> hh \<and> hh < 24 \<and> 0 \<le> mi \<and> mi < 60 \<and> 0 \<le> ss \<and> ss < 60
           \<and> (ymd2ord y mo d - 719163) * 86400 + hh * 3600 + mi * 60 + ss = k
           \<and> (\<forall>n. v = JInt n \<longrightarrow> k = n)
           \<and> (\<forall>x. v = JFloat (Finite x) \<longrightarrow>
                 \<lfloor>x\<rfloor> \<le> k \<and> k \<le> \<lfloor>x\<rfloor> + 1
                 \<and> (x - of_int \<lfloor>x\<rfloor> \<le> 999999 / 1000000 \<longrightarrow> k = \<lfloor>x\<rfloor>))"
    apply (rule exI [of _ y], rule exI [of _ mo], rule exI [of _ d])
    apply (rule exI [of _ hh], rule exI [of _ mi], rule exI [of _ ss], rule exI [of _ k])
    using f(2-15) m w by (intro conjI) (assumption | blast)+
qed

theorem numeric_ts_to_iso_utc_witness:
  "numeric_ts_to_iso (JInt 0) = Inr ''1970-01-01T00:00:00Z''
   \<and> numeric_ts_to_iso (JInt 1700000000) = Inr ''2023-11-14T22:13:20Z''
   \<and> matches_iso_format ''2023-11-14T22:13:20Z''"
proof -
  have run: "numeric_ts_to_iso (JInt 1700000000) = Inr ''2023-11-14T22:13:20Z''" by code_simp
  from numeric_ts_to_iso_utc [of "JInt 1700000000" "''2023-11-14T22:13:20Z''"] run
  show ?thesis by blast
qed

end
